theory Spec2Isabelle
  imports Main
begin

section \<open>The streaming Excel splitter (utils/excel_splitter.py)\<close>

text \<open>
  The class \<open>ExcelSplitter\<close> reads the rows of an input sheet one at a time, asks the
  group manager for the groups of the row's city (the cell at index 1), writes the row
  to one streaming workbook per group, and returns a summary dictionary.

  The group manager, the file namer, the configuration, openpyxl and XlsxWriter are not
  part of the modelled file. They are parameters of the model (the record \<open>env\<close>):
  each call that can raise returns either its value or the exception. Calls to the
  logger do not change the object or the returned dictionary and are left out.
\<close>

subsection \<open>Values\<close>

text \<open>
  A cell as \<open>iter_rows(values_only=True)\<close> yields it: an empty cell is \<open>None\<close>.
  Float and date cells are left out.
\<close>

datatype cell = CNone | CBool bool | CInt int | CStr string

text \<open>Python's truth value of a cell, as \<open>if city\<close> tests it.\<close>

fun truthy :: "cell \<Rightarrow> bool" where
  "truthy CNone = False"
| "truthy (CBool b) = b"
| "truthy (CInt i) = (i \<noteq> 0)"
| "truthy (CStr s) = (s \<noteq> [])"

text \<open>Python's \<open>==\<close> on cells (\<open>True == 1\<close> and \<open>False == 0\<close>), which a set uses.\<close>

fun py_eq :: "cell \<Rightarrow> cell \<Rightarrow> bool" where
  "py_eq CNone CNone = True"
| "py_eq (CBool a) (CBool b) = (a = b)"
| "py_eq (CBool a) (CInt i) = ((if a then 1 else 0) = i)"
| "py_eq (CInt i) (CBool b) = (i = (if b then 1 else 0))"
| "py_eq (CInt i) (CInt j) = (i = j)"
| "py_eq (CStr s) (CStr t) = (s = t)"
| "py_eq _ _ = False"

text \<open>
  \<open>set.add\<close>: the set is kept as the list of its elements in insertion order (the
  order in which Python lists a set is unspecified; no statement below depends on it).
\<close>

fun set_add :: "cell \<Rightarrow> cell list \<Rightarrow> cell list" where
  "set_add c [] = [c]"
| "set_add c (x # xs) = (if py_eq x c then x # xs else x # set_add c xs)"

text \<open>
  An exception that is an instance of \<open>Exception\<close>: one raised by a collaborator, with
  the text \<open>str(e)\<close> gives, or the \<open>KeyError\<close> of a dictionary lookup.
\<close>

datatype error = Raised string | KeyError string

fun str :: "error \<Rightarrow> string" where
  "str (Raised m) = m"
| "str (KeyError k) = [CHR 0x27] @ k @ [CHR 0x27]"

text \<open>
  What an awaited call can raise: an instance of \<open>Exception\<close>, or
  \<open>asyncio.CancelledError\<close>, which is a \<open>BaseException\<close> and not an
  \<open>Exception\<close>, so that \<open>except Exception\<close> does not catch it. The calls that are
  not awaited raise instances of \<open>Exception\<close> only.
\<close>

datatype exn = Exc error | CancelledError

text \<open>
  A dictionary with string keys, in insertion order. Assigning to a key that is present
  replaces the value and keeps the key's place; a new key goes to the end.
\<close>

fun dict_set :: "string \<Rightarrow> 'v \<Rightarrow> (string \<times> 'v) list \<Rightarrow> (string \<times> 'v) list" where
  "dict_set k v [] = [(k, v)]"
| "dict_set k v ((k', v') # d) =
     (if k' = k then (k', v) # d else (k', v') # dict_set k v d)"

text \<open>The values of the dictionaries that \<open>run\<close> returns.\<close>

datatype pyval =
    VBool bool
  | VInt int
  | VStr string
  | VPath string
  | VCells "cell list"
  | VDict "(string \<times> pyval) list"

subsection \<open>The collaborators\<close>

text \<open>
  \<open>get_groups_for_city n city\<close> is the answer to the lookup made after \<open>n\<close> earlier
  lookups: the group manager is an asynchronous service whose answer for one city may
  change during a run. The four awaited calls (\<open>ensure_initialized\<close>,
  \<open>get_groups_for_city\<close>, \<open>get_group_info\<close>, \<open>generate_output_filename\<close>) can
  raise any \<open>exn\<close>. \<open>Workbook p\<close> stands for creating the workbook at path \<open>p\<close> and
  its sheet; \<open>write_row g r data\<close> for writing \<open>data\<close> at row \<open>r\<close> of the sheet of
  group \<open>g\<close>; \<open>wb_close g\<close> for closing the workbook of group \<open>g\<close>. For these and for
  \<open>ensure_initialized\<close>, \<open>mkdir\<close> and \<open>close_input\<close> (closing the input workbook)
  the value is the exception raised, if any. \<open>load_workbook p\<close> gives the rows of the
  active sheet of the workbook at \<open>p\<close>, the sheet's own header line first, or the
  exception of opening it.
  \<open>joinpath\<close> and \<open>path_name\<close> are pathlib's \<open>/\<close> and \<open>.name\<close>.
\<close>

record env =
  ensure_initialized :: "exn option"
  load_workbook :: "string \<Rightarrow> error + cell list list"
  close_input :: "error option"
  get_groups_for_city :: "int \<Rightarrow> cell \<Rightarrow> exn + string list"
  get_group_info :: "string \<Rightarrow> exn + string"
  generate_output_filename :: "string \<Rightarrow> exn + string"
  OUTPUT_DIR :: string
  mkdir :: "string \<Rightarrow> error option"
  joinpath :: "string \<Rightarrow> string \<Rightarrow> string"
  path_name :: "string \<Rightarrow> string"
  Workbook :: "string \<Rightarrow> error option"
  write_row :: "string \<Rightarrow> int \<Rightarrow> cell list \<Rightarrow> error option"
  wb_close :: "string \<Rightarrow> error option"

subsection \<open>The splitter object\<close>

record workbook =
  filename :: string
  fileclosed :: bool

text \<open>A worksheet is the sequence of the rows written to it, each with its row index.\<close>

type_synonym worksheet = "(int \<times> cell list) list"

record splitter =
  input_path :: string
  headers :: "string list"
  writers :: "(string \<times> workbook) list"
  sheets :: "(string \<times> worksheet) list"
  row_counts :: "(string \<times> int) list"
  matched_rows :: int
  unmatched_cities :: "cell list"

text \<open>\<open>ExcelSplitter.__init__\<close>\<close>

definition init :: "string \<Rightarrow> string list \<Rightarrow> splitter" where
  "init p hs =
     \<lparr>input_path = p, headers = hs, writers = [], sheets = [], row_counts = [],
      matched_rows = 0, unmatched_cities = []\<rparr>"

text \<open>
  The functions below return the object after the call together with the exception the
  call raised, if any: what was changed before a raise stays changed.
\<close>

text \<open>\<open>ExcelSplitter._ensure_group_writer\<close>\<close>

definition ensure_group_writer :: "env \<Rightarrow> splitter \<Rightarrow> string \<Rightarrow> splitter \<times> exn option" where
  "ensure_group_writer E s group_id =
     (if map_of (writers s) group_id \<noteq> None then (s, None)
      else case get_group_info E group_id of
        Inl x \<Rightarrow> (s, Some x)
      | Inr group_info \<Rightarrow>
      (case generate_output_filename E group_info of
        Inl x \<Rightarrow> (s, Some x)
      | Inr fname \<Rightarrow>
      (case mkdir E (OUTPUT_DIR E) of
        Some e \<Rightarrow> (s, Some (Exc e))
      | None \<Rightarrow>
      (let file_path = joinpath E (OUTPUT_DIR E) fname in
       case Workbook E file_path of
        Some e \<Rightarrow> (s, Some (Exc e))
      | None \<Rightarrow>
      (case write_row E group_id 0 (map CStr (headers s)) of
        Some e \<Rightarrow> (s, Some (Exc e))
      | None \<Rightarrow>
        (s\<lparr>writers := dict_set group_id \<lparr>filename = file_path, fileclosed = False\<rparr> (writers s),
           sheets := dict_set group_id [(0, map CStr (headers s))] (sheets s),
           row_counts := dict_set group_id 1 (row_counts s)\<rparr>, None))))))"

text \<open>The body of the loop \<open>for g in groups\<close> of \<open>_process_row\<close>.\<close>

definition write_group :: "env \<Rightarrow> cell list \<Rightarrow> splitter \<Rightarrow> string \<Rightarrow> splitter \<times> exn option" where
  "write_group E row s g =
     (case ensure_group_writer E s g of
        (s1, Some x) \<Rightarrow> (s1, Some x)
      | (s1, None) \<Rightarrow>
      (case map_of (sheets s1) g of
        None \<Rightarrow> (s1, Some (Exc (KeyError g)))
      | Some ws \<Rightarrow>
      (case map_of (row_counts s1) g of
        None \<Rightarrow> (s1, Some (Exc (KeyError g)))
      | Some row_index \<Rightarrow>
      (case write_row E g row_index row of
        Some e \<Rightarrow> (s1, Some (Exc e))
      | None \<Rightarrow>
        (s1\<lparr>sheets := dict_set g (ws @ [(row_index, row)]) (sheets s1),
            row_counts := dict_set g (row_index + 1) (row_counts s1),
            matched_rows := matched_rows s1 + 1\<rparr>, None)))))"

fun write_groups :: "env \<Rightarrow> cell list \<Rightarrow> splitter \<Rightarrow> string list \<Rightarrow> splitter \<times> exn option" where
  "write_groups E row s [] = (s, None)"
| "write_groups E row s (g # gs) =
     (case write_group E row s g of
        (s1, Some x) \<Rightarrow> (s1, Some x)
      | (s1, None) \<Rightarrow> write_groups E row s1 gs)"

text \<open>The city of a row: \<open>row[1] if len(row) > 1 else None\<close>.\<close>

definition city_of :: "cell list \<Rightarrow> cell" where
  "city_of row = (if length row > 1 then row ! 1 else CNone)"

text \<open>
  \<open>ExcelSplitter._process_row\<close>; \<open>lookup\<close> is the group manager's
  \<open>get_groups_for_city\<close> at the time of the call.
\<close>

definition process_row ::
  "env \<Rightarrow> (cell \<Rightarrow> exn + string list) \<Rightarrow> splitter \<Rightarrow> cell list \<Rightarrow> splitter \<times> exn option" where
  "process_row E lookup s row =
     (let city = city_of row in
      case lookup city of
        Inl x \<Rightarrow> (s, Some x)
      | Inr groups \<Rightarrow>
        write_groups E row
          (if groups = [] \<and> truthy city
           then s\<lparr>unmatched_cities := set_add city (unmatched_cities s)\<rparr> else s)
          groups)"

text \<open>
  The loop of \<open>run\<close> over \<open>ws.iter_rows(min_row=2, values_only=True)\<close>, with its
  counter \<open>processed_rows\<close>; one lookup is made per row, so the counter is also the
  number of lookups made so far.
\<close>

fun iter_rows :: "env \<Rightarrow> splitter \<Rightarrow> int \<Rightarrow> cell list list \<Rightarrow> (splitter \<times> int) \<times> exn option" where
  "iter_rows E s processed_rows [] = ((s, processed_rows), None)"
| "iter_rows E s processed_rows (row # rows) =
     (case process_row E (get_groups_for_city E processed_rows) s row of
        (s1, Some x) \<Rightarrow> ((s1, processed_rows), Some x)
      | (s1, None) \<Rightarrow> iter_rows E s1 (processed_rows + 1) rows)"

text \<open>
  The loop of \<open>_finalize\<close> over \<open>self.writers.items()\<close>: an exception inside the
  \<open>try\<close> is logged and the loop goes on with the next group. Nothing is awaited
  inside the \<open>try\<close>.
\<close>

fun close_writers ::
  "env \<Rightarrow> splitter \<Rightarrow> (string \<times> pyval) list \<Rightarrow> (string \<times> workbook) list
     \<Rightarrow> splitter \<times> (string \<times> pyval) list" where
  "close_writers E s output_files [] = (s, output_files)"
| "close_writers E s output_files ((group_id, wb) # items) =
     (case wb_close E group_id of
        Some e \<Rightarrow> close_writers E s output_files items
      | None \<Rightarrow>
        (let s1 = s\<lparr>writers := dict_set group_id (wb\<lparr>fileclosed := True\<rparr>) (writers s)\<rparr> in
         case map_of (row_counts s1) group_id of
           None \<Rightarrow> close_writers E s1 output_files items
         | Some c \<Rightarrow>
             close_writers E s1
               (dict_set group_id
                  (VDict [(''filename'', VStr (path_name E (filename wb))),
                          (''path'', VPath (filename wb)),
                          (''row_count'', VInt (c - 1))])
                  output_files)
               items))"

text \<open>\<open>ExcelSplitter._finalize\<close>\<close>

definition finalize :: "env \<Rightarrow> splitter \<Rightarrow> int \<Rightarrow> splitter \<times> (string \<times> pyval) list" where
  "finalize E s processed_rows =
     (case close_writers E s [] (writers s) of
        (s1, output_files) \<Rightarrow>
          (s1, [(''success'', VBool True),
                (''total_rows'', VInt processed_rows),
                (''matched_rows'', VInt (matched_rows s1)),
                (''output_files'', VDict output_files),
                (''unmatched_cities'', VCells (unmatched_cities s1)),
                (''stats'', VDict (map (\<lambda>(g, c). (g, VInt c)) (row_counts s1)))]))"

text \<open>The dictionary built in the \<open>except Exception\<close> branch of \<open>run\<close>.\<close>

definition failure :: "error \<Rightarrow> (string \<times> pyval) list" where
  "failure e =
     [(''success'', VBool False),
      (''error'', VStr (str e)),
      (''total_rows'', VInt 0),
      (''output_files'', VDict [])]"

text \<open>
  The handler \<open>except Exception as e\<close> of \<open>run\<close>: an instance of \<open>Exception\<close> is
  caught and the failure dictionary returned; \<open>CancelledError\<close> is not caught, it
  leaves \<open>run\<close>, which then returns nothing (\<open>None\<close> below).
\<close>

fun except_Exception :: "exn \<Rightarrow> (string \<times> pyval) list option" where
  "except_Exception (Exc e) = Some (failure e)"
| "except_Exception CancelledError = None"

text \<open>
  \<open>ExcelSplitter.run\<close>: the object after the run, and the dictionary \<open>run\<close> returns
  or \<open>None\<close> when an exception leaves \<open>run\<close> uncaught.
\<close>

definition run :: "env \<Rightarrow> splitter \<Rightarrow> splitter \<times> (string \<times> pyval) list option" where
  "run E s =
     (case ensure_initialized E of
        Some x \<Rightarrow> (s, except_Exception x)
      | None \<Rightarrow>
      (case load_workbook E (input_path s) of
        Inl e \<Rightarrow> (s, except_Exception (Exc e))
      | Inr sheet_rows \<Rightarrow>
      (case iter_rows E s 0 (drop 1 sheet_rows) of
        ((s1, processed_rows), Some x) \<Rightarrow> (s1, except_Exception x)
      | ((s1, processed_rows), None) \<Rightarrow>
      (case close_input E of
        Some e \<Rightarrow> (s1, except_Exception (Exc e))
      | None \<Rightarrow>
      (case finalize E s1 processed_rows of
        (s2, result) \<Rightarrow> (s2, Some result))))))"

text \<open>
  \<open>split_excel_by_groups\<close> (and its synchronous wrapper, which returns the same):
  the dictionary returned, or \<open>None\<close> when the exception leaves the call.
\<close>

definition split_excel_by_groups ::
  "env \<Rightarrow> string \<Rightarrow> string list \<Rightarrow> (string \<times> pyval) list option" where
  "split_excel_by_groups E p hs = snd (run E (init p hs))"

subsection \<open>Reading the returned dictionary\<close>

text \<open>The dictionary a call returned; the empty dictionary when it returned nothing.\<close>

definition returned :: "(string \<times> pyval) list option \<Rightarrow> (string \<times> pyval) list" where
  "returned r = (case r of Some d \<Rightarrow> d | None \<Rightarrow> [])"

text \<open>
  \<open>r["output_files"][g]["row_count"]\<close> and \<open>r["stats"][g]\<close>, with \<open>None\<close> where
  Python raises a \<open>KeyError\<close>; \<open>output_files_of r\<close> is \<open>r["output_files"]\<close>.
\<close>

definition output_files_of :: "(string \<times> pyval) list \<Rightarrow> (string \<times> pyval) list" where
  "output_files_of r = (case map_of r ''output_files'' of Some (VDict fs) \<Rightarrow> fs | _ \<Rightarrow> [])"

definition row_count_of :: "(string \<times> pyval) list \<Rightarrow> string \<Rightarrow> int option" where
  "row_count_of r g =
     (case map_of (output_files_of r) g of
        Some (VDict d) \<Rightarrow> (case map_of d ''row_count'' of Some (VInt n) \<Rightarrow> Some n | _ \<Rightarrow> None)
      | _ \<Rightarrow> None)"

definition stats_of :: "(string \<times> pyval) list \<Rightarrow> string \<Rightarrow> int option" where
  "stats_of r g =
     (case map_of r ''stats'' of
        Some (VDict d) \<Rightarrow> (case map_of d g of Some (VInt n) \<Rightarrow> Some n | _ \<Rightarrow> None)
      | _ \<Rightarrow> None)"

text \<open>What \<open>_finalize\<close> stores in \<open>output_files\<close> for a workbook and a cursor.\<close>

definition descriptor :: "env \<Rightarrow> workbook \<Rightarrow> int \<Rightarrow> pyval" where
  "descriptor E wb c =
     VDict [(''filename'', VStr (path_name E (filename wb))),
            (''path'', VPath (filename wb)),
            (''row_count'', VInt (c - 1))]"

subsection \<open>Invariants of the writer pool\<close>

text \<open>The next row index of a group; 1 for a group that has no writer yet.\<close>

definition cursor :: "splitter \<Rightarrow> string \<Rightarrow> int" where
  "cursor s g = (case map_of (row_counts s) g of None \<Rightarrow> 1 | Some c \<Rightarrow> c)"

text \<open>The three dictionaries of the object have the same keys, each once.\<close>

definition pool_ok :: "splitter \<Rightarrow> bool" where
  "pool_ok s \<longleftrightarrow>
     map fst (writers s) = map fst (row_counts s) \<and>
     map fst (sheets s) = map fst (row_counts s) \<and>
     distinct (map fst (row_counts s))"

text \<open>
  A sheet holds the header at row 0 and then one row at each index up to the cursor.
\<close>

definition sheet_ok :: "string list \<Rightarrow> worksheet \<Rightarrow> int \<Rightarrow> bool" where
  "sheet_ok hs ws c \<longleftrightarrow>
     ws \<noteq> [] \<and> hd ws = (0, map CStr hs) \<and>
     map fst ws = map int [0..<length ws] \<and> c = int (length ws)"

definition sheets_ok :: "splitter \<Rightarrow> bool" where
  "sheets_ok s \<longleftrightarrow>
     (\<forall>g ws. map_of (sheets s) g = Some ws \<longrightarrow> sheet_ok (headers s) ws (cursor s g))"

text \<open>
  The groups each row of the input resolved to, the lookups being numbered from \<open>n\<close>
  (the empty list where the lookup raised).
\<close>

fun resolved :: "env \<Rightarrow> int \<Rightarrow> cell list list \<Rightarrow> string list list" where
  "resolved E n [] = []"
| "resolved E n (row # rows) =
     (case get_groups_for_city E n (city_of row) of Inl e \<Rightarrow> [] | Inr gs \<Rightarrow> gs)
       # resolved E (n + 1) rows"

subsection \<open>A concrete run\<close>

text \<open>
  The input sheet has a header line and the rows \<open>(1, Paris, 10)\<close>, \<open>(2, Lagos, 5)\<close>,
  \<open>(3, Paris, 7)\<close>; the group manager answers \<open>EU\<close> for the first lookup of Paris,
  nothing for Lagos and \<open>EU, VIP\<close> for the later lookup of Paris; no collaborator raises.
  No file other than \<open>in.xlsx\<close> exists.
\<close>

definition demo_sheet :: "cell list list" where
  "demo_sheet =
     [[CStr ''Id'', CStr ''City'', CStr ''Value''],
      [CInt 1, CStr ''Paris'', CInt 10],
      [CInt 2, CStr ''Lagos'', CInt 5],
      [CInt 3, CStr ''Paris'', CInt 7]]"

definition demo_headers :: "string list" where
  "demo_headers = [''Id'', ''City'', ''Value'']"

definition demo_env :: env where
  "demo_env =
     \<lparr>ensure_initialized = None,
      load_workbook = (\<lambda>p. if p = ''in.xlsx'' then Inr demo_sheet
                            else Inl (Raised ''No such file or directory'')),
      close_input = None,
      get_groups_for_city = (\<lambda>n c. Inr (if c = CStr ''Paris''
                                          then (if n = 0 then [''EU''] else [''EU'', ''VIP''])
                                          else [])),
      get_group_info = (\<lambda>g. Inr g),
      generate_output_filename = (\<lambda>i. Inr (i @ ''.xlsx'')),
      OUTPUT_DIR = ''out'',
      mkdir = (\<lambda>d. None),
      joinpath = (\<lambda>d f. d @ ''/'' @ f),
      path_name = (\<lambda>p. rev (takeWhile (\<lambda>c. c \<noteq> CHR ''/'') (rev p))),
      Workbook = (\<lambda>p. None),
      write_row = (\<lambda>g r d. None),
      wb_close = (\<lambda>g. None)\<rparr>"

text \<open>The same run when closing the workbook of \<open>EU\<close> raises.\<close>

definition close_fails_env :: env where
  "close_fails_env =
     demo_env\<lparr>wb_close := (\<lambda>g. if g = ''EU'' then Some (Raised ''disk full'') else None)\<rparr>"

text \<open>The same run when creating the workbook of \<open>EU\<close> raises.\<close>

definition create_fails_env :: env where
  "create_fails_env =
     demo_env\<lparr>Workbook := (\<lambda>p. if p = ''out/EU.xlsx'' then Some (Raised ''disk full'') else None)\<rparr>"

text \<open>
  The same run when the task is cancelled while the information of the first group is
  awaited.
\<close>

definition cancelled_env :: env where
  "cancelled_env = demo_env\<lparr>get_group_info := (\<lambda>g. Inl CancelledError)\<rparr>"

text \<open>
  A sheet whose only data row has one cell, so no key, with a group manager that answers
  \<open>EU\<close> to every lookup, and with one that raises on every lookup.
\<close>

definition no_key_env :: env where
  "no_key_env =
     demo_env\<lparr>load_workbook := (\<lambda>p. Inr [[CStr ''Id''], [CInt 7]]),
              get_groups_for_city := (\<lambda>n c. Inr [''EU''])\<rparr>"

definition no_key_raise_env :: env where
  "no_key_raise_env =
     demo_env\<lparr>load_workbook := (\<lambda>p. Inr [[CStr ''Id''], [CInt 7]]),
              get_groups_for_city := (\<lambda>n c. Inl (Exc (Raised ''lookup failed'')))\<rparr>"

section \<open>Properties\<close>

subsection \<open>Dictionaries\<close>


lemma map_of_dict_set: "map_of (dict_set k v d) = (map_of d)(k \<mapsto> v)"
  by (induction d) (auto simp: fun_eq_iff)

lemma keys_dict_set:
  "map fst (dict_set k v d) = (if k \<in> fst ` set d then map fst d else map fst d @ [k])"
  by (induction d) force+

lemma set_keys_dict_set: "fst ` set (dict_set k v d) = insert k (fst ` set d)"
proof -
  have "set (map fst (dict_set k v d)) = insert k (set (map fst d))"
    unfolding keys_dict_set by auto
  then show ?thesis by simp
qed

lemma distinct_keys_dict_set:
  "distinct (map fst d) \<Longrightarrow> distinct (map fst (dict_set k v d))"
  unfolding keys_dict_set by auto

lemma dict_set_present_keys:
  "map_of d k \<noteq> None \<Longrightarrow> map fst (dict_set k v d) = map fst d"
  unfolding keys_dict_set by (auto simp: map_of_eq_None_iff)

subsection \<open>The writer of a group\<close>

lemma ensure_present:
  "map_of (writers s) g \<noteq> None \<Longrightarrow> ensure_group_writer E s g = (s, None)"
  by (simp add: ensure_group_writer_def)

lemma ensure_error_state:
  "ensure_group_writer E s g = (s1, Some e) \<Longrightarrow> s1 = s"
  by (auto simp: ensure_group_writer_def Let_def split: if_splits sum.splits option.splits)

lemma ensure_ok_registered:
  "ensure_group_writer E s g = (s1, None) \<Longrightarrow> map_of (writers s1) g \<noteq> None"
  by (auto simp: ensure_group_writer_def Let_def map_of_dict_set split: if_splits sum.splits option.splits)

lemma ensure_twice:
  "ensure_group_writer E s g = (s1, None) \<Longrightarrow> ensure_group_writer E s1 g = (s1, None)"
  using ensure_ok_registered ensure_present by blast


lemma pool_ok_init: "pool_ok (init p hs)"
  by (simp add: pool_ok_def init_def)

lemma map_of_None_keys: "map_of d k = None \<longleftrightarrow> k \<notin> set (map fst d)"
  by (simp add: map_of_eq_None_iff)

lemma pool_ok_lookups:
  assumes "pool_ok s"
  shows "map_of (sheets s) g = None \<longleftrightarrow> map_of (writers s) g = None"
    and "map_of (row_counts s) g = None \<longleftrightarrow> map_of (writers s) g = None"
  using assms unfolding pool_ok_def map_of_None_keys by simp_all

lemma pool_ok_keys:
  assumes "pool_ok s"
  shows "fst ` set (writers s) = fst ` set (row_counts s)"
    and "fst ` set (sheets s) = fst ` set (row_counts s)"
proof -
  from assms have "set (map fst (writers s)) = set (map fst (row_counts s))"
    and "set (map fst (sheets s)) = set (map fst (row_counts s))"
    unfolding pool_ok_def by simp_all
  then show "fst ` set (writers s) = fst ` set (row_counts s)"
    and "fst ` set (sheets s) = fst ` set (row_counts s)" by simp_all
qed

lemma ensure_cases:
  assumes "ensure_group_writer E s g = (s1, None)"
  shows "s1 = s \<and> map_of (writers s) g \<noteq> None \<or>
         map_of (writers s) g = None \<and>
         (\<exists>p. s1 = s\<lparr>writers := dict_set g \<lparr>filename = p, fileclosed = False\<rparr> (writers s),
                       sheets := dict_set g [(0, map CStr (headers s))] (sheets s),
                       row_counts := dict_set g 1 (row_counts s)\<rparr>)"
  using assms
  by (auto simp: ensure_group_writer_def Let_def split: if_splits sum.splits option.splits)

lemma ensure_pool_ok:
  assumes "ensure_group_writer E s g = (s1, None)" "pool_ok s"
  shows "pool_ok s1"
proof -
  from ensure_cases[OF assms(1)] show ?thesis
  proof (elim disjE conjE exE)
    assume "s1 = s" then show ?thesis using assms(2) by simp
  next
    fix p
    assume n: "map_of (writers s) g = None"
      and e: "s1 = s\<lparr>writers := dict_set g \<lparr>filename = p, fileclosed = False\<rparr> (writers s),
                       sheets := dict_set g [(0, map CStr (headers s))] (sheets s),
                       row_counts := dict_set g 1 (row_counts s)\<rparr>"
    from n have "g \<notin> fst ` set (writers s)" by (simp add: map_of_eq_None_iff)
    with pool_ok_keys[OF assms(2)]
    have "g \<notin> fst ` set (row_counts s)" "g \<notin> fst ` set (sheets s)" by simp_all
    with \<open>g \<notin> fst ` set (writers s)\<close> show ?thesis using assms(2) unfolding e pool_ok_def
      by (simp add: keys_dict_set)
  qed
qed

lemma ensure_cursor:
  assumes "ensure_group_writer E s g = (s1, None)" "pool_ok s"
  shows "cursor s1 g' = cursor s g'"
proof -
  from ensure_cases[OF assms(1)] show ?thesis
  proof (elim disjE conjE exE)
    assume "s1 = s" then show ?thesis by simp
  next
    fix p
    assume n: "map_of (writers s) g = None"
      and e: "s1 = s\<lparr>writers := dict_set g \<lparr>filename = p, fileclosed = False\<rparr> (writers s),
                       sheets := dict_set g [(0, map CStr (headers s))] (sheets s),
                       row_counts := dict_set g 1 (row_counts s)\<rparr>"
    from n pool_ok_lookups(2)[OF assms(2)] have "map_of (row_counts s) g = None" by simp
    then show ?thesis unfolding e cursor_def by (simp add: map_of_dict_set)
  qed
qed

lemma ensure_new_cursor:
  assumes "ensure_group_writer E s g = (s1, None)" "map_of (writers s) g = None"
  shows "map_of (row_counts s1) g = Some 1 \<and>
         map_of (sheets s1) g = Some [(0, map CStr (headers s))]"
  using ensure_cases[OF assms(1)] assms(2) by (auto simp: map_of_dict_set)

lemma ensure_other_fields:
  assumes "ensure_group_writer E s g = (s1, r)"
  shows "matched_rows s1 = matched_rows s \<and> unmatched_cities s1 = unmatched_cities s \<and>
         headers s1 = headers s \<and> input_path s1 = input_path s"
  using assms
  by (auto simp: ensure_group_writer_def Let_def split: if_splits sum.splits option.splits)

lemma ensure_writer_keys:
  assumes "ensure_group_writer E s g = (s1, None)"
  shows "fst ` set (writers s1) = insert g (fst ` set (writers s))"
proof -
  from ensure_cases[OF assms] show ?thesis
  proof (elim disjE conjE exE)
    assume "s1 = s" "map_of (writers s) g \<noteq> None"
    then show ?thesis by (auto simp: map_of_eq_None_iff)
  next
    fix p
    assume "s1 = s\<lparr>writers := dict_set g \<lparr>filename = p, fileclosed = False\<rparr> (writers s),
                       sheets := dict_set g [(0, map CStr (headers s))] (sheets s),
                       row_counts := dict_set g 1 (row_counts s)\<rparr>"
    then show ?thesis by (simp add: set_keys_dict_set)
  qed
qed

subsection \<open>Writing one row\<close>

lemma write_group_ok:
  assumes "write_group E row s g = (s', None)" "pool_ok s"
  shows "pool_ok s'"
    and "cursor s' g' = cursor s g' + (if g' = g then 1 else 0)"
    and "matched_rows s' = matched_rows s + 1"
    and "unmatched_cities s' = unmatched_cities s"
    and "fst ` set (writers s') = insert g (fst ` set (writers s))"
    and "headers s' = headers s"
proof -
  obtain s1 r where e1: "ensure_group_writer E s g = (s1, r)" by fastforce
  with assms(1) have r: "r = None" by (auto simp: write_group_def split: option.splits)
  note e1 = e1[unfolded r]
  have ok1: "pool_ok s1" using ensure_pool_ok[OF e1 assms(2)] .
  from assms(1) e1 obtain ws c where
    ws: "map_of (sheets s1) g = Some ws" and c: "map_of (row_counts s1) g = Some c"
    and s': "s' = s1\<lparr>sheets := dict_set g (ws @ [(c, row)]) (sheets s1),
            row_counts := dict_set g (c + 1) (row_counts s1),
            matched_rows := matched_rows s1 + 1\<rparr>"
    by (auto simp: write_group_def split: option.splits)
  have present: "g \<in> fst ` set (row_counts s1)" using c by (metis map_of_eq_None_iff option.distinct(1))
  have present2: "g \<in> fst ` set (sheets s1)" using ws by (metis map_of_eq_None_iff option.distinct(1))
  show "pool_ok s'" using ok1 present present2 unfolding s' pool_ok_def
    by (simp add: keys_dict_set)
  show "cursor s' g' = cursor s g' + (if g' = g then 1 else 0)"
    using ensure_cursor[OF e1 assms(2), of g'] c
    unfolding s' cursor_def by (auto simp: map_of_dict_set)
  show "matched_rows s' = matched_rows s + 1" "unmatched_cities s' = unmatched_cities s"
     "headers s' = headers s"
    using ensure_other_fields[OF e1] unfolding s' by simp_all
  show "fst ` set (writers s') = insert g (fst ` set (writers s))"
    using ensure_writer_keys[OF e1] unfolding s' by simp
qed

lemma write_groups_ok:
  assumes "write_groups E row s gs = (s', None)" "pool_ok s"
  shows "pool_ok s' \<and>
         cursor s' g' = cursor s g' + int (count_list gs g') \<and>
         matched_rows s' = matched_rows s + int (length gs) \<and>
         unmatched_cities s' = unmatched_cities s \<and>
         fst ` set (writers s') = set gs \<union> fst ` set (writers s) \<and>
         headers s' = headers s"
  using assms
proof (induction gs arbitrary: s)
  case Nil
  then show ?case by simp
next
  case (Cons g gs)
  obtain s1 r where w: "write_group E row s g = (s1, r)" by fastforce
  with Cons.prems(1) have r: "r = None" by (auto split: option.splits)
  note w = w[unfolded r]
  from Cons.prems(1) w have rest: "write_groups E row s1 gs = (s', None)" by simp
  note g = write_group_ok[OF w Cons.prems(2)]
  from Cons.IH[OF rest g(1)] g(2)[of g'] g(3,4,5,6)
  show ?case by auto
qed

subsection \<open>The row loop\<close>


lemma length_resolved: "length (resolved E n rows) = length rows"
  by (induction rows arbitrary: n) auto

lemma process_row_ok:
  assumes "process_row E lookup s row = (s', None)" "pool_ok s"
  shows "\<exists>gs. lookup (city_of row) = Inr gs \<and>
         pool_ok s' \<and>
         cursor s' g' = cursor s g' + int (count_list gs g') \<and>
         matched_rows s' = matched_rows s + int (length gs) \<and>
         fst ` set (writers s') = set gs \<union> fst ` set (writers s) \<and>
         headers s' = headers s \<and>
         unmatched_cities s' =
           (if gs = [] \<and> truthy (city_of row)
            then set_add (city_of row) (unmatched_cities s) else unmatched_cities s)"
proof -
  from assms(1) obtain gs where l: "lookup (city_of row) = Inr gs"
    by (auto simp: process_row_def Let_def split: sum.splits)
  define s0 where "s0 = (if gs = [] \<and> truthy (city_of row)
           then s\<lparr>unmatched_cities := set_add (city_of row) (unmatched_cities s)\<rparr> else s)"
  from assms(1) l have w: "write_groups E row s0 gs = (s', None)"
    by (simp add: process_row_def Let_def s0_def)
  have ok0: "pool_ok s0" using assms(2) by (simp add: s0_def pool_ok_def)
  have c0: "cursor s0 g' = cursor s g'" by (simp add: s0_def cursor_def)
  from write_groups_ok[OF w ok0, of g'] l c0 show ?thesis
    by (auto simp: s0_def)
qed

lemma iter_rows_ok:
  assumes "iter_rows E s n rows = ((s', n'), None)" "pool_ok s"
  shows "pool_ok s' \<and> n' = n + int (length rows) \<and>
         cursor s' g = cursor s g + (\<Sum>gs\<leftarrow>resolved E n rows. int (count_list gs g)) \<and>
         matched_rows s' = matched_rows s + (\<Sum>gs\<leftarrow>resolved E n rows. int (length gs)) \<and>
         fst ` set (writers s') = \<Union> (set ` set (resolved E n rows)) \<union> fst ` set (writers s) \<and>
         headers s' = headers s"
  using assms
proof (induction rows arbitrary: s n)
  case Nil
  then show ?case by simp
next
  case (Cons row rows)
  obtain s1 r where p: "process_row E (get_groups_for_city E n) s row = (s1, r)" by fastforce
  with Cons.prems(1) have r: "r = None" by (auto split: option.splits)
  note p = p[unfolded r]
  from Cons.prems(1) p have rest: "iter_rows E s1 (n + 1) rows = ((s', n'), None)" by simp
  from process_row_ok[OF p Cons.prems(2), of g] obtain gs where
    l: "get_groups_for_city E n (city_of row) = Inr gs" and ok1: "pool_ok s1"
    and c: "cursor s1 g = cursor s g + int (count_list gs g)"
    and m: "matched_rows s1 = matched_rows s + int (length gs)"
    and k: "fst ` set (writers s1) = set gs \<union> fst ` set (writers s)"
    and h: "headers s1 = headers s" by blast
  from Cons.IH[OF rest ok1] l c m k h show ?case by auto
qed

lemma iter_rows_append:
  "iter_rows E s n (pre @ rest) =
     (case iter_rows E s n pre of
        ((s1, n1), Some e) \<Rightarrow> ((s1, n1), Some e)
      | ((s1, n1), None) \<Rightarrow> iter_rows E s1 n1 rest)"
  by (induction pre arbitrary: s n) (auto split: prod.splits option.splits)

lemma write_groups_append:
  "write_groups E row s (pre @ rest) =
     (case write_groups E row s pre of
        (s1, Some e) \<Rightarrow> (s1, Some e)
      | (s1, None) \<Rightarrow> write_groups E row s1 rest)"
  by (induction pre arbitrary: s) (auto split: prod.splits option.splits)

subsection \<open>Closing the writers\<close>

lemma close_writers_fields:
  assumes "close_writers E s out items = (s', out')"
  shows "row_counts s' = row_counts s \<and> matched_rows s' = matched_rows s \<and>
         unmatched_cities s' = unmatched_cities s \<and> sheets s' = sheets s \<and>
         headers s' = headers s \<and> input_path s' = input_path s"
  using assms
proof (induction items arbitrary: s out)
  case Nil
  then show ?case by simp
next
  case (Cons it items)
  obtain g wb where it: "it = (g, wb)" by (cases it)
  show ?case
  proof (cases "wb_close E g")
    case (Some e)
    with Cons.prems it have "close_writers E s out items = (s', out')" by simp
    from Cons.IH[OF this] show ?thesis .
  next
    case None
    define s1 where "s1 = s\<lparr>writers := dict_set g (wb\<lparr>fileclosed := True\<rparr>) (writers s)\<rparr>"
    have f: "row_counts s1 = row_counts s" "matched_rows s1 = matched_rows s"
      "unmatched_cities s1 = unmatched_cities s" "sheets s1 = sheets s"
      "headers s1 = headers s" "input_path s1 = input_path s"
      by (simp_all add: s1_def)
    from Cons.prems it None obtain out1 where "close_writers E s1 out1 items = (s', out')"
      by (auto simp: Let_def s1_def split: option.splits)
    from Cons.IH[OF this] f show ?thesis by simp
  qed
qed

lemma close_writers_result:
  assumes "close_writers E s out items = (s', out')" "distinct (map fst items)"
  shows "map_of out' g =
           (case map_of items g of
              None \<Rightarrow> map_of out g
            | Some wb \<Rightarrow>
               (case wb_close E g of
                  Some e \<Rightarrow> map_of out g
                | None \<Rightarrow>
                   (case map_of (row_counts s) g of
                      None \<Rightarrow> map_of out g
                    | Some c \<Rightarrow> Some (descriptor E wb c))))"
    and "map_of (writers s') g =
           (case map_of items g of
              None \<Rightarrow> map_of (writers s) g
            | Some wb \<Rightarrow>
               (case wb_close E g of
                  Some e \<Rightarrow> map_of (writers s) g
                | None \<Rightarrow> Some (wb\<lparr>fileclosed := True\<rparr>)))"
  using assms
proof (induction items arbitrary: s out)
  case Nil
  { case 1 then show ?case by simp }
  { case 2 then show ?case by simp }
next
  case (Cons it items)
  obtain h wb where it: "it = (h, wb)" by (cases it)
  { case 1
    from 1(2) it have d: "distinct (map fst items)" and hn: "map_of items h = None"
      by (auto simp: map_of_eq_None_iff)
    show ?case
    proof (cases "wb_close E h")
      case (Some e)
      with 1(1) it have r: "close_writers E s out items = (s', out')" by simp
      from Cons.IH(1)[OF r d] hn Some it show ?thesis by (auto split: option.splits)
    next
      case None
      define s1 where "s1 = s\<lparr>writers := dict_set h (wb\<lparr>fileclosed := True\<rparr>) (writers s)\<rparr>"
      have rc: "row_counts s1 = row_counts s" by (simp add: s1_def)
      show ?thesis
      proof (cases "map_of (row_counts s) h")
        case nn: None
        with 1(1) it None have r: "close_writers E s1 out items = (s', out')"
          by (simp add: Let_def s1_def)
        from Cons.IH(1)[OF r d] hn None nn it rc show ?thesis by (auto split: option.splits)
      next
        case (Some c)
        with 1(1) it None
        have r: "close_writers E s1 (dict_set h (descriptor E wb c) out) items = (s', out')"
          by (simp add: Let_def s1_def descriptor_def)
        from Cons.IH(1)[OF r d] hn None Some it rc show ?thesis
          by (auto simp: map_of_dict_set split: option.splits)
      qed
    qed }
  { case 2
    from 2(2) it have d: "distinct (map fst items)" and hn: "map_of items h = None"
      by (auto simp: map_of_eq_None_iff)
    show ?case
    proof (cases "wb_close E h")
      case (Some e)
      with 2(1) it have r: "close_writers E s out items = (s', out')" by simp
      from Cons.IH(2)[OF r d] hn Some it show ?thesis by (auto split: option.splits)
    next
      case None
      define s1 where "s1 = s\<lparr>writers := dict_set h (wb\<lparr>fileclosed := True\<rparr>) (writers s)\<rparr>"
      from 2(1) it None obtain out1 where r: "close_writers E s1 out1 items = (s', out')"
        by (auto simp: Let_def s1_def split: option.splits)
      have w: "map_of (writers s1) g = (if g = h then Some (wb\<lparr>fileclosed := True\<rparr>) else map_of (writers s) g)"
        by (simp add: s1_def map_of_dict_set)
      from Cons.IH(2)[OF r d] hn None it w show ?thesis
        by (auto split: option.splits)
    qed }
qed

lemma close_writers_keys:
  assumes "close_writers E s out items = (s', out')" "fst ` set items \<subseteq> fst ` set (writers s)"
  shows "map fst (writers s') = map fst (writers s)"
  using assms
proof (induction items arbitrary: s out)
  case Nil
  then show ?case by simp
next
  case (Cons it items)
  obtain h wb where it: "it = (h, wb)" by (cases it)
  from Cons.prems(2) it have hin: "h \<in> fst ` set (writers s)"
    and sub: "fst ` set items \<subseteq> fst ` set (writers s)" by auto
  show ?case
  proof (cases "wb_close E h")
    case (Some e)
    with Cons.prems(1) it have r: "close_writers E s out items = (s', out')" by simp
    from Cons.IH[OF r sub] show ?thesis .
  next
    case None
    define s1 where "s1 = s\<lparr>writers := dict_set h (wb\<lparr>fileclosed := True\<rparr>) (writers s)\<rparr>"
    from Cons.prems(1) it None obtain out1 where r: "close_writers E s1 out1 items = (s', out')"
      by (auto simp: Let_def s1_def split: option.splits)
    have k: "map fst (writers s1) = map fst (writers s)"
      using hin by (simp add: s1_def keys_dict_set)
    then have "set (map fst (writers s1)) = set (map fst (writers s))" by simp
    then have "fst ` set (writers s1) = fst ` set (writers s)" by simp
    with sub have "fst ` set items \<subseteq> fst ` set (writers s1)" by simp
    from Cons.IH[OF r this] k show ?thesis by simp
  qed
qed

subsection \<open>The returned dictionary\<close>

lemma finalize_eq:
  assumes "finalize E s n = (s', r)"
  shows "s' = fst (close_writers E s [] (writers s))"
    and "r = [(''success'', VBool True),
              (''total_rows'', VInt n),
              (''matched_rows'', VInt (matched_rows s)),
              (''output_files'', VDict (snd (close_writers E s [] (writers s)))),
              (''unmatched_cities'', VCells (unmatched_cities s)),
              (''stats'', VDict (map (\<lambda>(g, c). (g, VInt c)) (row_counts s)))]"
proof -
  obtain s1 out where c: "close_writers E s [] (writers s) = (s1, out)" by fastforce
  note f = close_writers_fields[OF c]
  from assms c show "s' = fst (close_writers E s [] (writers s))"
    by (auto simp: finalize_def)
  from assms c f show "r = [(''success'', VBool True),
              (''total_rows'', VInt n),
              (''matched_rows'', VInt (matched_rows s)),
              (''output_files'', VDict (snd (close_writers E s [] (writers s)))),
              (''unmatched_cities'', VCells (unmatched_cities s)),
              (''stats'', VDict (map (\<lambda>(g, c). (g, VInt c)) (row_counts s)))]"
    by (auto simp: finalize_def)
qed

lemma finalize_output_files:
  assumes "finalize E s n = (s', r)" "pool_ok s"
  shows "map_of (output_files_of r) g =
           (case map_of (writers s) g of
              None \<Rightarrow> None
            | Some wb \<Rightarrow> (case wb_close E g of
                  Some e \<Rightarrow> None
                | None \<Rightarrow> Some (descriptor E wb (cursor s g))))"
proof -
  obtain s1 out where c: "close_writers E s [] (writers s) = (s1, out)" by fastforce
  from assms(2) have d: "distinct (map fst (writers s))" by (simp add: pool_ok_def)
  have o: "output_files_of r = out"
    unfolding finalize_eq(2)[OF assms(1)] c by (simp add: output_files_of_def)
  show ?thesis
  proof (cases "map_of (writers s) g")
    case None
    with close_writers_result(1)[OF c d, of g] o show ?thesis by simp
  next
    case (Some wb)
    with pool_ok_lookups(2)[OF assms(2), of g] obtain k where k: "map_of (row_counts s) g = Some k"
      by auto
    then have "cursor s g = k" by (simp add: cursor_def)
    with close_writers_result(1)[OF c d, of g] o Some k show ?thesis
      by (simp split: option.splits)
  qed
qed

lemma row_count_of_descriptor:
  "map_of fs g = Some (descriptor E wb c) \<Longrightarrow>
     (case map_of fs g of
        Some (VDict d) \<Rightarrow> (case map_of d ''row_count'' of Some (VInt n) \<Rightarrow> Some n | _ \<Rightarrow> None)
      | _ \<Rightarrow> None) = Some (c - 1)"
  by (simp add: descriptor_def)

lemma finalize_row_count:
  assumes "finalize E s n = (s', r)" "pool_ok s"
  shows "row_count_of r g =
           (if map_of (writers s) g \<noteq> None \<and> wb_close E g = None
            then Some (cursor s g - 1) else None)"
  unfolding row_count_of_def finalize_output_files[OF assms]
  by (auto simp: descriptor_def split: option.splits)

lemma map_of_stats:
  "map_of (map (\<lambda>(g, c). (g, VInt c)) d) g = map_option VInt (map_of d g)"
  by (induction d) auto

lemma finalize_stats:
  assumes "finalize E s n = (s', r)"
  shows "stats_of r g = map_of (row_counts s) g"
  unfolding finalize_eq(2)[OF assms] stats_of_def
  by (simp add: map_of_stats split: option.splits)

lemma finalize_closed:
  assumes "finalize E s n = (s', r)" "pool_ok s"
  shows "map_of (writers s') g =
           (case map_of (writers s) g of
              None \<Rightarrow> None
            | Some wb \<Rightarrow> (case wb_close E g of
                 Some e \<Rightarrow> Some wb
               | None \<Rightarrow> Some (wb\<lparr>fileclosed := True\<rparr>)))"
proof -
  obtain s1 out where c: "close_writers E s [] (writers s) = (s1, out)" by fastforce
  from assms(2) have d: "distinct (map fst (writers s))" by (simp add: pool_ok_def)
  have "s' = s1" using finalize_eq(1)[OF assms(1)] c by simp
  with close_writers_result(2)[OF c d, of g] show ?thesis
    by (simp split: option.splits)
qed

lemma finalize_state:
  assumes "finalize E s n = (s', r)"
  shows "row_counts s' = row_counts s" "matched_rows s' = matched_rows s"
    "unmatched_cities s' = unmatched_cities s" "sheets s' = sheets s"
    "headers s' = headers s" "map fst (writers s') = map fst (writers s)"
proof -
  obtain s1 out where c: "close_writers E s [] (writers s) = (s1, out)" by fastforce
  have e: "s' = s1" using finalize_eq(1)[OF assms(1)] c by simp
  from close_writers_fields[OF c] e
  show "row_counts s' = row_counts s" "matched_rows s' = matched_rows s"
    "unmatched_cities s' = unmatched_cities s" "sheets s' = sheets s"
    "headers s' = headers s" by simp_all
  from close_writers_keys[OF c] e show "map fst (writers s') = map fst (writers s)" by simp
qed

subsection \<open>The two ways \<open>run\<close> ends\<close>

lemma run_cases:
  obtains (raised) s1 x where "run E s = (s1, except_Exception x)"
  | (finalized) sheet s1 n s2 r where "ensure_initialized E = None"
      "load_workbook E (input_path s) = Inr sheet"
      "iter_rows E s 0 (drop 1 sheet) = ((s1, n), None)"
      "close_input E = None"
      "finalize E s1 n = (s2, r)"
      "run E s = (s2, Some r)"
proof (cases "ensure_initialized E")
  case (Some x)
  then have "run E s = (s, except_Exception x)" by (simp add: run_def)
  then show ?thesis by (rule raised)
next
  case None
  show ?thesis
  proof (cases "load_workbook E (input_path s)")
    case (Inl e)
    with None have "run E s = (s, except_Exception (Exc e))" by (simp add: run_def)
    then show ?thesis by (rule raised)
  next
    case (Inr sheet)
    obtain s1 n r where i: "iter_rows E s 0 (drop 1 sheet) = ((s1, n), r)"
      by (metis surj_pair)
    show ?thesis
    proof (cases r)
      case rn: None
      show ?thesis
      proof (cases "close_input E")
        case cn: None
        obtain s2 res where f: "finalize E s1 n = (s2, res)" by fastforce
        with None Inr i rn cn have "run E s = (s2, Some res)" by (simp add: run_def)
        with None Inr i rn cn f show ?thesis using finalized by blast
      next
        case (Some e)
        with None Inr i rn have "run E s = (s1, except_Exception (Exc e))"
          by (simp add: run_def)
        then show ?thesis by (rule raised)
      qed
    next
      case (Some x)
      with None Inr i have "run E s = (s1, except_Exception x)" by (simp add: run_def)
      then show ?thesis by (rule raised)
    qed
  qed
qed

lemma failure_not_success: "map_of (failure e) ''success'' = Some (VBool False)"
  by (simp add: failure_def)

lemma except_Exception_Some:
  "except_Exception x = Some r \<longleftrightarrow> (\<exists>e. x = Exc e \<and> r = failure e)"
  by (cases x) auto

lemma finalize_success:
  assumes "finalize E s n = (s', r)"
  shows "map_of r ''success'' = Some (VBool True)"
  unfolding finalize_eq(2)[OF assms] by simp

lemma run_success:
  assumes "run E s = (s', Some r)" "map_of r ''success'' = Some (VBool True)"
  obtains sheet s1 n where "ensure_initialized E = None"
      "load_workbook E (input_path s) = Inr sheet"
      "iter_rows E s 0 (drop 1 sheet) = ((s1, n), None)"
      "finalize E s1 n = (s', r)"
proof (cases E s rule: run_cases)
  case (raised s1 x)
  with assms(1) have "except_Exception x = Some r" by simp
  then obtain e where "r = failure e" unfolding except_Exception_Some by blast
  with assms(2) show ?thesis by (simp add: failure_def)
next
  case (finalized sheet s1 n s2 res)
  with assms that show ?thesis by simp
qed

subsection \<open>The sheets\<close>

lemma sheets_ok_init: "sheets_ok (init p hs)"
  by (simp add: sheets_ok_def init_def)

lemma sheet_ok_new: "sheet_ok hs [(0, map CStr hs)] 1"
  by (simp add: sheet_ok_def)

lemma sheet_ok_append:
  assumes "sheet_ok hs ws c"
  shows "sheet_ok hs (ws @ [(c, row)]) (c + 1)"
  using assms by (auto simp: sheet_ok_def)

lemma ensure_sheets_ok:
  assumes "ensure_group_writer E s g = (s1, None)" "pool_ok s" "sheets_ok s"
  shows "sheets_ok s1"
proof -
  from ensure_cases[OF assms(1)] show ?thesis
  proof (elim disjE conjE exE)
    assume "s1 = s" then show ?thesis using assms(3) by simp
  next
    fix p
    assume n: "map_of (writers s) g = None"
      and e: "s1 = s\<lparr>writers := dict_set g \<lparr>filename = p, fileclosed = False\<rparr> (writers s),
                       sheets := dict_set g [(0, map CStr (headers s))] (sheets s),
                       row_counts := dict_set g 1 (row_counts s)\<rparr>"
    show ?thesis
      unfolding sheets_ok_def
    proof (intro allI impI)
      fix h ws assume m: "map_of (sheets s1) h = Some ws"
      show "sheet_ok (headers s1) ws (cursor s1 h)"
      proof (cases "h = g")
        case True
        with m have "ws = [(0, map CStr (headers s))]" by (simp add: e map_of_dict_set)
        moreover have "cursor s1 h = 1" using True by (simp add: e cursor_def map_of_dict_set)
        moreover have "headers s1 = headers s" by (simp add: e)
        ultimately show ?thesis by (simp add: sheet_ok_new)
      next
        case False
        with m have "map_of (sheets s) h = Some ws" by (simp add: e map_of_dict_set)
        with assms(3) have "sheet_ok (headers s) ws (cursor s h)" by (simp add: sheets_ok_def)
        moreover have "cursor s1 h = cursor s h" using False
          by (simp add: e cursor_def map_of_dict_set)
        moreover have "headers s1 = headers s" by (simp add: e)
        ultimately show ?thesis by simp
      qed
    qed
  qed
qed

lemma write_group_sheet:
  assumes "write_group E row s g = (s', None)" "pool_ok s"
  shows "\<exists>s1 ws. ensure_group_writer E s g = (s1, None) \<and>
           map_of (sheets s1) g = Some ws \<and>
           map_of (sheets s') g = Some (ws @ [(cursor s1 g, row)]) \<and>
           (\<forall>h. h \<noteq> g \<longrightarrow> map_of (sheets s') h = map_of (sheets s1) h)"
proof -
  obtain s1 r where e1: "ensure_group_writer E s g = (s1, r)" by fastforce
  with assms(1) have r: "r = None" by (auto simp: write_group_def split: option.splits)
  note e1 = e1[unfolded r]
  from assms(1) e1 obtain ws c where
    ws: "map_of (sheets s1) g = Some ws" and c: "map_of (row_counts s1) g = Some c"
    and s': "s' = s1\<lparr>sheets := dict_set g (ws @ [(c, row)]) (sheets s1),
            row_counts := dict_set g (c + 1) (row_counts s1),
            matched_rows := matched_rows s1 + 1\<rparr>"
    by (auto simp: write_group_def split: option.splits)
  from c have "cursor s1 g = c" by (simp add: cursor_def)
  with e1 ws show ?thesis unfolding s' by (auto simp: map_of_dict_set)
qed

lemma write_group_sheets_ok:
  assumes "write_group E row s g = (s', None)" "pool_ok s" "sheets_ok s"
  shows "sheets_ok s'"
proof -
  from write_group_sheet[OF assms(1,2)] obtain s1 ws where
    e1: "ensure_group_writer E s g = (s1, None)"
    and ws: "map_of (sheets s1) g = Some ws"
    and ws': "map_of (sheets s') g = Some (ws @ [(cursor s1 g, row)])"
    and oth: "\<forall>h. h \<noteq> g \<longrightarrow> map_of (sheets s') h = map_of (sheets s1) h" by blast
  have ok1: "sheets_ok s1" using ensure_sheets_ok[OF e1 assms(2,3)] .
  have p1: "pool_ok s1" using ensure_pool_ok[OF e1 assms(2)] .
  have hd: "headers s' = headers s1"
    using write_group_ok(6)[OF assms(1,2)] ensure_other_fields[OF e1] by simp
  have cur: "\<And>h. cursor s' h = cursor s1 h + (if h = g then 1 else 0)"
    using write_group_ok(2)[OF assms(1,2)] ensure_cursor[OF e1 assms(2)] by simp
  show ?thesis unfolding sheets_ok_def
  proof (intro allI impI)
    fix h wh assume m: "map_of (sheets s') h = Some wh"
    show "sheet_ok (headers s') wh (cursor s' h)"
    proof (cases "h = g")
      case True
      from ok1 ws have "sheet_ok (headers s1) ws (cursor s1 g)" by (simp add: sheets_ok_def)
      from sheet_ok_append[OF this, of row] m ws' True hd cur[of g] show ?thesis by simp
    next
      case False
      with m oth have "map_of (sheets s1) h = Some wh" by simp
      with ok1 have "sheet_ok (headers s1) wh (cursor s1 h)" by (simp add: sheets_ok_def)
      with False hd cur[of h] show ?thesis by simp
    qed
  qed
qed

lemma write_groups_sheets_ok:
  assumes "write_groups E row s gs = (s', None)" "pool_ok s" "sheets_ok s"
  shows "sheets_ok s'"
  using assms
proof (induction gs arbitrary: s)
  case Nil
  then show ?case by simp
next
  case (Cons g gs)
  obtain s1 r where w: "write_group E row s g = (s1, r)" by fastforce
  with Cons.prems(1) have r: "r = None" by (auto split: option.splits)
  note w = w[unfolded r]
  from Cons.prems(1) w have rest: "write_groups E row s1 gs = (s', None)" by simp
  from Cons.IH[OF rest write_group_ok(1)[OF w Cons.prems(2)]
      write_group_sheets_ok[OF w Cons.prems(2,3)]]
  show ?case .
qed

lemma process_row_sheets_ok:
  assumes "process_row E lookup s row = (s', None)" "pool_ok s" "sheets_ok s"
  shows "sheets_ok s'"
proof -
  from assms(1) obtain gs where l: "lookup (city_of row) = Inr gs"
    by (auto simp: process_row_def Let_def split: sum.splits)
  define s0 where "s0 = (if gs = [] \<and> truthy (city_of row)
           then s\<lparr>unmatched_cities := set_add (city_of row) (unmatched_cities s)\<rparr> else s)"
  from assms(1) l have w: "write_groups E row s0 gs = (s', None)"
    by (simp add: process_row_def Let_def s0_def)
  have ok0: "pool_ok s0" using assms(2) by (simp add: s0_def pool_ok_def)
  have sh0: "sheets_ok s0" using assms(3) by (simp add: s0_def sheets_ok_def cursor_def)
  from write_groups_sheets_ok[OF w ok0 sh0] show ?thesis .
qed

lemma iter_rows_sheets_ok:
  assumes "iter_rows E s n rows = ((s', n'), None)" "pool_ok s" "sheets_ok s"
  shows "sheets_ok s'"
  using assms
proof (induction rows arbitrary: s n)
  case Nil
  then show ?case by simp
next
  case (Cons row rows)
  obtain s1 r where p: "process_row E (get_groups_for_city E n) s row = (s1, r)" by fastforce
  with Cons.prems(1) have r: "r = None" by (auto split: option.splits)
  note p = p[unfolded r]
  from Cons.prems(1) p have rest: "iter_rows E s1 (n + 1) rows = ((s', n'), None)" by simp
  from process_row_ok[OF p Cons.prems(2), of undefined] have ok1: "pool_ok s1" by blast
  from Cons.IH[OF rest ok1 process_row_sheets_ok[OF p Cons.prems(2,3)]] show ?case .
qed

section \<open>The claims\<close>

subsection \<open>Idempotent creation of a writer\<close>

lemma one_entry_per_key:
  "distinct (map fst d) \<Longrightarrow> k \<in> fst ` set d \<Longrightarrow> length (filter (\<lambda>kv. fst kv = k) d) = 1"
proof (induction d)
  case Nil
  then show ?case by simp
next
  case (Cons a d)
  show ?case
  proof (cases "fst a = k")
    case True
    with Cons.prems(1) have "k \<notin> fst ` set d" by auto
    then have "filter (\<lambda>kv. fst kv = k) d = []" by (auto simp: filter_empty_conv)
    with True show ?thesis by simp
  next
    case False
    with Cons show ?thesis by auto
  qed
qed

text \<open>
  Claim C7. Ensuring the writer of a group that already has one changes nothing: the call
  returns the object as it is (no second workbook, and the cursor, the row count and the
  sheet with its header stay as they were). In particular a second call right after a
  successful first one leaves the object unchanged, and the pool then holds exactly one
  writer for the group.
\<close>

theorem ensure_group_writer_idempotent:
  "(map_of (writers t) g \<noteq> None \<longrightarrow> ensure_group_writer E t g = (t, None)) \<and>
   (ensure_group_writer E s g = (s1, None) \<longrightarrow>
      ensure_group_writer E s1 g = (s1, None) \<and>
      (pool_ok s \<longrightarrow> pool_ok s1 \<and> length (filter (\<lambda>kv. fst kv = g) (writers s1)) = 1))"
proof (intro conjI impI)
  assume "map_of (writers t) g \<noteq> None"
  then show "ensure_group_writer E t g = (t, None)" by (rule ensure_present)
next
  assume "ensure_group_writer E s g = (s1, None)"
  then show "ensure_group_writer E s1 g = (s1, None)" by (rule ensure_twice)
next
  assume e: "ensure_group_writer E s g = (s1, None)" and ok: "pool_ok s"
  show ok1: "pool_ok s1" using ensure_pool_ok[OF e ok] .
  have "g \<in> fst ` set (writers s1)" using ensure_writer_keys[OF e] by simp
  moreover have "distinct (map fst (writers s1))" using ok1 by (simp add: pool_ok_def)
  ultimately show "length (filter (\<lambda>kv. fst kv = g) (writers s1)) = 1"
    by (simp add: one_entry_per_key)
qed

lemmas run_simps = demo_env_def demo_sheet_def demo_headers_def init_def run_def
  split_excel_by_groups_def process_row_def city_of_def write_group_def
  ensure_group_writer_def finalize_def failure_def returned_def Let_def

lemma run_collapse:
  assumes "map_of (returned (snd (run E s))) k = Some v"
  shows "run E s = (fst (run E s), Some (returned (snd (run E s))))"
proof (cases "snd (run E s)")
  case None
  with assms show ?thesis by (simp add: returned_def)
next
  case (Some d)
  then have "returned (snd (run E s)) = d" by (simp add: returned_def)
  with Some show ?thesis by (metis prod.collapse)
qed

lemma split_collapse:
  assumes "map_of (returned (split_excel_by_groups E p hs)) k = Some v"
  shows "split_excel_by_groups E p hs = Some (returned (split_excel_by_groups E p hs))"
proof (cases "split_excel_by_groups E p hs")
  case None
  with assms show ?thesis by (simp add: returned_def)
next
  case (Some d)
  then show ?thesis by (simp add: returned_def)
qed

text \<open>
  Claim C7 on the concrete run: after the three rows the cursor of \<open>EU\<close> is 3, and
  ensuring \<open>EU\<close> again returns the object as it is; and \<open>EU\<close> ensured twice on a fresh
  object.
\<close>

theorem ensure_group_writer_idempotent_witness:
  "map_of (writers (fst (fst (iter_rows demo_env (init ''in.xlsx'' demo_headers) 0
      (drop 1 demo_sheet))))) ''EU'' \<noteq> None \<and>
   row_counts (fst (fst (iter_rows demo_env (init ''in.xlsx'' demo_headers) 0
      (drop 1 demo_sheet)))) = [(''EU'', 3), (''VIP'', 2)] \<and>
   ensure_group_writer demo_env
      (fst (fst (iter_rows demo_env (init ''in.xlsx'' demo_headers) 0 (drop 1 demo_sheet)))) ''EU''
     = (fst (fst (iter_rows demo_env (init ''in.xlsx'' demo_headers) 0 (drop 1 demo_sheet))), None) \<and>
   pool_ok (init ''in.xlsx'' demo_headers) \<and>
   ensure_group_writer demo_env (init ''in.xlsx'' demo_headers) ''EU''
     = (fst (ensure_group_writer demo_env (init ''in.xlsx'' demo_headers) ''EU''), None) \<and>
   row_counts (fst (ensure_group_writer demo_env (init ''in.xlsx'' demo_headers) ''EU''))
     = [(''EU'', 1)] \<and>
   ensure_group_writer demo_env (fst (ensure_group_writer demo_env (init ''in.xlsx'' demo_headers) ''EU'')) ''EU''
     = (fst (ensure_group_writer demo_env (init ''in.xlsx'' demo_headers) ''EU''), None) \<and>
   length (filter (\<lambda>kv. fst kv = ''EU'')
     (writers (fst (ensure_group_writer demo_env (init ''in.xlsx'' demo_headers) ''EU'')))) = 1"
proof -
  let ?s = "init ''in.xlsx'' demo_headers"
  let ?t = "fst (fst (iter_rows demo_env ?s 0 (drop 1 demo_sheet)))"
  let ?s1 = "fst (ensure_group_writer demo_env ?s ''EU'')"
  have h1: "map_of (writers ?t) ''EU'' \<noteq> None"
    by (simp add: run_simps)
  have c1: "row_counts ?t = [(''EU'', 3), (''VIP'', 2)]"
    by (simp add: run_simps)
  have h2: "ensure_group_writer demo_env ?s ''EU'' = (?s1, None)"
    by (simp add: run_simps)
  have c2: "row_counts ?s1 = [(''EU'', 1)]"
    by (simp add: run_simps)
  have h3: "pool_ok ?s"
    by (simp add: pool_ok_def init_def)
  from ensure_group_writer_idempotent[of ?t "''EU''" demo_env ?s ?s1] h1 c1 h2 c2 h3
  show ?thesis by blast
qed

subsection \<open>The total-row counter\<close>

lemma iter_rows_counter:
  "iter_rows E s n rows = ((s', n'), None) \<Longrightarrow> n' = n + int (length rows)"
proof (induction rows arbitrary: s n)
  case Nil
  then show ?case by simp
next
  case (Cons row rows)
  obtain s1 r where p: "process_row E (get_groups_for_city E n) s row = (s1, r)" by fastforce
  with Cons.prems have r: "r = None" by (auto split: option.splits)
  from Cons.prems p r have "iter_rows E s1 (n + 1) rows = ((s', n'), None)" by simp
  from Cons.IH[OF this] show ?case by simp
qed

text \<open>
  Claim C5. When \<open>split_excel_by_groups\<close> returns a success dictionary, its
  \<open>total_rows\<close> is the number of rows of the input sheet after the first (the sheet's
  own header line): the loop adds one to the counter for each row it processed, whatever
  the row matched.
\<close>

theorem total_rows_counts_data_rows:
  assumes "load_workbook E p = Inr sheet"
    and "split_excel_by_groups E p hs = Some r"
    and "map_of r ''success'' = Some (VBool True)"
  shows "map_of r ''total_rows'' = Some (VInt (int (length (drop 1 sheet))))"
proof -
  have ip: "input_path (init p hs) = p" by (simp add: init_def)
  from assms(2) have ru: "run E (init p hs) = (fst (run E (init p hs)), Some r)"
    by (metis split_excel_by_groups_def prod.collapse)
  from run_success[OF ru assms(3)] obtain sheet' s1 n where
    l: "load_workbook E (input_path (init p hs)) = Inr sheet'"
    and i: "iter_rows E (init p hs) 0 (drop 1 sheet') = ((s1, n), None)"
    and f: "finalize E s1 n = (fst (run E (init p hs)), r)" by blast
  from l assms(1) ip have sh: "sheet' = sheet" by simp
  from iter_rows_counter[OF i] have "n = int (length (drop 1 sheet'))" by simp
  with sh show ?thesis unfolding finalize_eq(2)[OF f] by simp
qed

text \<open>Claim C5 on the concrete run: three data rows after the header line.\<close>

theorem total_rows_counts_data_rows_witness:
  "load_workbook demo_env ''in.xlsx'' = Inr demo_sheet \<and>
   map_of (returned (split_excel_by_groups demo_env ''in.xlsx'' demo_headers)) ''success''
     = Some (VBool True) \<and>
   map_of (returned (split_excel_by_groups demo_env ''in.xlsx'' demo_headers)) ''total_rows''
     = Some (VInt (int (length (drop 1 demo_sheet)))) \<and>
   length (drop 1 demo_sheet) = 3"
proof (intro conjI)
  let ?r = "returned (split_excel_by_groups demo_env ''in.xlsx'' demo_headers)"
  show h1: "load_workbook demo_env ''in.xlsx'' = Inr demo_sheet"
    by (simp add: demo_env_def)
  show h3: "map_of ?r ''success'' = Some (VBool True)"
    by (simp add: run_simps)
  show "map_of ?r ''total_rows'' = Some (VInt (int (length (drop 1 demo_sheet))))"
    by (rule total_rows_counts_data_rows[OF h1 split_collapse[OF h3] h3])
  show "length (drop 1 demo_sheet) = 3" by (simp add: demo_sheet_def)
qed

subsection \<open>The failure dictionary\<close>




subsection \<open>The fields of the returned dictionary\<close>

lemma set_dict_set: "set (dict_set k v d) \<subseteq> insert (k, v) (set d)"
proof (induction d)
  case Nil
  then show ?case by simp
next
  case (Cons a d)
  obtain k' v' where a: "a = (k', v')" by (cases a)
  show ?case
  proof (cases "k' = k")
    case True
    then show ?thesis by (auto simp: a)
  next
    case False
    with Cons show ?thesis by (auto simp: a)
  qed
qed

lemma values_dict_set: "snd ` set (dict_set k v d) \<subseteq> insert v (snd ` set d)"
  using set_dict_set[of k v d] by force

lemma close_writers_descriptors:
  assumes "close_writers E s out items = (s', out')"
    and "\<forall>v\<in>snd ` set out. \<exists>wb c. v = descriptor E wb c"
  shows "\<forall>v\<in>snd ` set out'. \<exists>wb c. v = descriptor E wb c"
  using assms
proof (induction items arbitrary: s out)
  case Nil
  then show ?case by simp
next
  case (Cons it items)
  obtain h wb where it: "it = (h, wb)" by (cases it)
  show ?case
  proof (cases "wb_close E h")
    case (Some e)
    with Cons.prems(1) it have "close_writers E s out items = (s', out')" by simp
    from Cons.IH[OF this Cons.prems(2)] show ?thesis .
  next
    case None
    define s1 where "s1 = s\<lparr>writers := dict_set h (wb\<lparr>fileclosed := True\<rparr>) (writers s)\<rparr>"
    show ?thesis
    proof (cases "map_of (row_counts s1) h")
      case nn: None
      with Cons.prems(1) it None have "close_writers E s1 out items = (s', out')"
        by (simp add: Let_def s1_def)
      from Cons.IH[OF this Cons.prems(2)] show ?thesis .
    next
      case (Some c)
      with Cons.prems(1) it None
      have r: "close_writers E s1 (dict_set h (descriptor E wb c) out) items = (s', out')"
        by (simp add: Let_def s1_def descriptor_def)
      have "\<forall>v\<in>snd ` set (dict_set h (descriptor E wb c) out). \<exists>wb c. v = descriptor E wb c"
        using values_dict_set[of h "descriptor E wb c" out] Cons.prems(2) by blast
      from Cons.IH[OF r this] show ?thesis .
    qed
  qed
qed

text \<open>
  Claim C3, as the code has it. A dictionary that \<open>split_excel_by_groups\<close> returns is
  a success dictionary, with exactly the fields \<open>success\<close>, \<open>total_rows\<close>,
  \<open>matched_rows\<close>, \<open>output_files\<close> (each entry a dictionary with \<open>filename\<close>,
  \<open>path\<close> and \<open>row_count\<close>), \<open>unmatched_cities\<close> (a list of cells) and \<open>stats\<close>
  (each entry an integer), or a failure dictionary, with exactly the fields \<open>success\<close>,
  \<open>error\<close>, \<open>total_rows\<close> (0) and \<open>output_files\<close> (empty), and no others.
\<close>

theorem run_result_fields:
  assumes "split_excel_by_groups E p hs = Some r"
  shows "(\<exists>n m fs us st.
      r = [(''success'', VBool True), (''total_rows'', VInt n), (''matched_rows'', VInt m),
           (''output_files'', VDict fs), (''unmatched_cities'', VCells us),
           (''stats'', VDict st)] \<and>
      (\<forall>v\<in>snd ` set fs. \<exists>f q c.
          v = VDict [(''filename'', VStr f), (''path'', VPath q), (''row_count'', VInt c)]) \<and>
      (\<forall>v\<in>snd ` set st. \<exists>c. v = VInt c)) \<or>
   (\<exists>e. r = [(''success'', VBool False), (''error'', VStr e), (''total_rows'', VInt 0),
              (''output_files'', VDict [])])"
proof (cases E "init p hs" rule: run_cases)
  case (raised s1 x)
  with assms have "except_Exception x = Some r" by (simp add: split_excel_by_groups_def)
  then obtain e where "r = failure e" unfolding except_Exception_Some by blast
  then have "r = [(''success'', VBool False), (''error'', VStr (str e)), (''total_rows'', VInt 0),
         (''output_files'', VDict [])]"
    by (simp add: failure_def)
  then show ?thesis by blast
next
  case (finalized sheet s1 n s' res)
  note f = finalized(5)
  obtain s2 out where c: "close_writers E s1 [] (writers s1) = (s2, out)" by fastforce
  have "\<forall>v\<in>snd ` set out. \<exists>wb c. v = descriptor E wb c"
    using close_writers_descriptors[OF c] by simp
  then have d: "\<forall>v\<in>snd ` set out. \<exists>f q c.
          v = VDict [(''filename'', VStr f), (''path'', VPath q), (''row_count'', VInt c)]"
    unfolding descriptor_def by blast
  have st: "\<forall>v\<in>snd ` set (map (\<lambda>(g, c). (g, VInt c)) (row_counts s1)). \<exists>c. v = VInt c"
    by auto
  have "r = res"
    using finalized(6) assms by (simp add: split_excel_by_groups_def)
  then have "r =
       [(''success'', VBool True), (''total_rows'', VInt n),
        (''matched_rows'', VInt (matched_rows s1)),
        (''output_files'', VDict out),
        (''unmatched_cities'', VCells (unmatched_cities s1)),
        (''stats'', VDict (map (\<lambda>(g, c). (g, VInt c)) (row_counts s1)))]"
    using finalize_eq(2)[OF f] c by simp
  with d st show ?thesis by blast
qed

text \<open>
  Claim C3 on the concrete run: the keys of the success dictionary, and those of the
  failure dictionary for a missing input file.
\<close>

theorem run_result_fields_witness:
  "map fst (returned (split_excel_by_groups demo_env ''in.xlsx'' demo_headers)) =
     [''success'', ''total_rows'', ''matched_rows'', ''output_files'', ''unmatched_cities'',
      ''stats''] \<and>
   map fst (returned (split_excel_by_groups demo_env ''missing.xlsx'' demo_headers)) =
     [''success'', ''error'', ''total_rows'', ''output_files''] \<and>
   map fst (output_files_of (returned (split_excel_by_groups demo_env ''in.xlsx'' demo_headers))) =
     [''EU'', ''VIP''] \<and>
   (\<exists>f q c. snd (hd (output_files_of
        (returned (split_excel_by_groups demo_env ''in.xlsx'' demo_headers)))) =
      VDict [(''filename'', VStr f), (''path'', VPath q), (''row_count'', VInt c)])"
proof (intro conjI)
  let ?r = "returned (split_excel_by_groups demo_env ''in.xlsx'' demo_headers)"
  show "map fst ?r =
     [''success'', ''total_rows'', ''matched_rows'', ''output_files'', ''unmatched_cities'',
      ''stats'']"
    by (simp add: run_simps)
  show "map fst (returned (split_excel_by_groups demo_env ''missing.xlsx'' demo_headers)) =
     [''success'', ''error'', ''total_rows'', ''output_files'']"
    by (simp add: run_simps)
  show k: "map fst (output_files_of ?r) = [''EU'', ''VIP'']"
    by (simp add: run_simps output_files_of_def)
  then have ne: "output_files_of ?r \<noteq> []" by auto
  have s: "map_of ?r ''success'' = Some (VBool True)" by (simp add: run_simps)
  from run_result_fields[OF split_collapse[OF s]]
  have "\<forall>v\<in>snd ` set (output_files_of ?r).
      \<exists>f q c. v = VDict [(''filename'', VStr f), (''path'', VPath q), (''row_count'', VInt c)]"
  proof (elim disjE exE conjE)
    fix n m fs us st
    assume r: "?r =
        [(''success'', VBool True), (''total_rows'', VInt n), (''matched_rows'', VInt m),
         (''output_files'', VDict fs), (''unmatched_cities'', VCells us),
         (''stats'', VDict st)]"
      and d: "\<forall>v\<in>snd ` set fs. \<exists>f q c.
          v = VDict [(''filename'', VStr f), (''path'', VPath q), (''row_count'', VInt c)]"
    have "output_files_of ?r = fs"
      unfolding r by (simp add: output_files_of_def)
    with d show ?thesis by simp
  next
    fix e
    assume r: "?r =
        [(''success'', VBool False), (''error'', VStr e), (''total_rows'', VInt 0),
         (''output_files'', VDict [])]"
    have "output_files_of ?r = []"
      unfolding r by (simp add: output_files_of_def)
    then show ?thesis by simp
  qed
  moreover have "snd (hd (output_files_of ?r)) \<in> snd ` set (output_files_of ?r)"
    using ne by simp
  ultimately show "\<exists>f q c. snd (hd (output_files_of ?r)) =
      VDict [(''filename'', VStr f), (''path'', VPath q), (''row_count'', VInt c)]"
    by blast
qed

text \<open>
  Claim C3 as stated fails: the failure dictionary (here for a missing input file) has
  no \<open>matched_rows\<close>, no \<open>stats\<close> and no list of unmatched keys.
\<close>

theorem failure_fields_counterexample:
  "split_excel_by_groups demo_env ''missing.xlsx'' demo_headers =
     Some [(''success'', VBool False), (''error'', VStr ''No such file or directory''),
           (''total_rows'', VInt 0), (''output_files'', VDict [])] \<and>
   map_of (returned (split_excel_by_groups demo_env ''missing.xlsx'' demo_headers))
     ''matched_rows'' = None \<and>
   map_of (returned (split_excel_by_groups demo_env ''missing.xlsx'' demo_headers))
     ''stats'' = None \<and>
   map_of (returned (split_excel_by_groups demo_env ''missing.xlsx'' demo_headers))
     ''unmatched_cities'' = None \<and>
   map_of (returned (split_excel_by_groups demo_env ''missing.xlsx'' demo_headers))
     ''unmatched_keys'' = None"
  by (simp add: run_simps)

subsection \<open>The statistics\<close>

lemma run_success_state:
  assumes "run E (init p hs) = (s', Some r)" "map_of r ''success'' = Some (VBool True)"
  obtains sheet s1 n where "ensure_initialized E = None"
      "load_workbook E p = Inr sheet"
      "iter_rows E (init p hs) 0 (drop 1 sheet) = ((s1, n), None)"
      "finalize E s1 n = (s', r)" "pool_ok s1" "sheets_ok s1"
proof -
  have ip: "input_path (init p hs) = p" by (simp add: init_def)
  from run_success[OF assms] obtain sheet s1 n where
    a: "ensure_initialized E = None"
    and l: "load_workbook E (input_path (init p hs)) = Inr sheet"
    and i: "iter_rows E (init p hs) 0 (drop 1 sheet) = ((s1, n), None)"
    and f: "finalize E s1 n = (s', r)" by blast
  from iter_rows_ok[OF i pool_ok_init, of undefined] have ok: "pool_ok s1" by simp
  from iter_rows_sheets_ok[OF i pool_ok_init sheets_ok_init] have sh: "sheets_ok s1" .
  from a l i f ok sh ip that show ?thesis by simp
qed

lemma stats_parts:
  assumes "run E (init p hs) = (s', Some r)"
    and "map_of r ''success'' = Some (VBool True)"
  shows "stats_of r g = map_of (row_counts s') g"
    and "stats_of r g \<noteq> None \<longleftrightarrow> map_of (writers s') g \<noteq> None"
    and "\<forall>ws. map_of (sheets s') g = Some ws \<longrightarrow> stats_of r g = Some (int (length (tl ws)) + 1)"
    and "\<forall>n. row_count_of r g = Some n \<longrightarrow> stats_of r g = Some (n + 1)"
proof -
  from run_success_state[OF assms] obtain sheet s1 n where
    f: "finalize E s1 n = (s', r)" and ok: "pool_ok s1" and sh: "sheets_ok s1" by blast
  note st = finalize_state[OF f]
  have s: "stats_of r g = map_of (row_counts s1) g" by (rule finalize_stats[OF f])
  with st(1) show "stats_of r g = map_of (row_counts s') g" by simp
  have "map_of (writers s') g = None \<longleftrightarrow> map_of (writers s1) g = None"
    using st(6) by (simp add: map_of_None_keys)
  with s pool_ok_lookups(2)[OF ok, of g]
  show "stats_of r g \<noteq> None \<longleftrightarrow> map_of (writers s') g \<noteq> None" by simp
  show "\<forall>ws. map_of (sheets s') g = Some ws \<longrightarrow> stats_of r g = Some (int (length (tl ws)) + 1)"
  proof (intro allI impI)
    fix ws assume "map_of (sheets s') g = Some ws"
    with st(4) have w: "map_of (sheets s1) g = Some ws" by simp
    with sh have so: "sheet_ok (headers s1) ws (cursor s1 g)" by (simp add: sheets_ok_def)
    from w pool_ok_lookups[OF ok, of g] obtain c where c: "map_of (row_counts s1) g = Some c"
      by auto
    then have "cursor s1 g = c" by (simp add: cursor_def)
    with so have "c = int (length ws)" "ws \<noteq> []" by (simp_all add: sheet_ok_def)
    then have "c = int (length (tl ws)) + 1" by (cases ws) simp_all
    with s c show "stats_of r g = Some (int (length (tl ws)) + 1)" by simp
  qed
  show "\<forall>n. row_count_of r g = Some n \<longrightarrow> stats_of r g = Some (n + 1)"
  proof (intro allI impI)
    fix k assume "row_count_of r g = Some k"
    with finalize_row_count[OF f ok, of g]
    have w: "map_of (writers s1) g \<noteq> None" and k: "k = cursor s1 g - 1"
      by (auto split: if_splits)
    from w pool_ok_lookups(2)[OF ok, of g] obtain c where c: "map_of (row_counts s1) g = Some c"
      by auto
    then have "cursor s1 g = c" by (simp add: cursor_def)
    with s c k show "stats_of r g = Some (k + 1)" by simp
  qed
qed

text \<open>
  Claim C9. In a success dictionary, \<open>stats\<close> is the final \<open>row_counts\<close>: it has an
  entry exactly for the groups that have a writer, the entry is the group's final
  cursor, which is one more than the number of data rows written to the group's sheet
  (the rows after the header), and for every group in \<open>output_files\<close> it is
  \<open>row_count + 1\<close>.
\<close>

theorem stats_are_final_cursors:
  assumes "run E (init p hs) = (s', Some r)"
    and "map_of r ''success'' = Some (VBool True)"
  shows "stats_of r g = map_of (row_counts s') g \<and>
         (stats_of r g \<noteq> None \<longleftrightarrow> map_of (writers s') g \<noteq> None) \<and>
         (\<forall>ws. map_of (sheets s') g = Some ws \<longrightarrow>
                stats_of r g = Some (int (length (tl ws)) + 1)) \<and>
         (\<forall>n. row_count_of r g = Some n \<longrightarrow> stats_of r g = Some (n + 1))"
  using stats_parts[OF assms] by blast

text \<open>Claim C9 on the concrete run: the group \<open>EU\<close> got two rows and has \<open>stats\<close> 3.\<close>

theorem stats_are_final_cursors_witness:
  "map_of (returned (snd (run demo_env (init ''in.xlsx'' demo_headers)))) ''success'' = Some (VBool True) \<and>
   row_count_of (returned (snd (run demo_env (init ''in.xlsx'' demo_headers)))) ''EU'' = Some 2 \<and>
   stats_of (returned (snd (run demo_env (init ''in.xlsx'' demo_headers)))) ''EU'' = Some (2 + 1) \<and>
   stats_of (returned (snd (run demo_env (init ''in.xlsx'' demo_headers)))) ''EU''
     = map_of (row_counts (fst (run demo_env (init ''in.xlsx'' demo_headers)))) ''EU''"
proof (intro conjI)
  let ?r = "returned (snd (run demo_env (init ''in.xlsx'' demo_headers)))"
  show h1: "map_of ?r ''success'' = Some (VBool True)"
    by (simp add: run_simps)
  show h2: "row_count_of ?r ''EU'' = Some 2"
    by (simp add: run_simps row_count_of_def output_files_of_def)
  note c = stats_are_final_cursors[OF run_collapse[OF h1] h1, of "''EU''"]
  from c h2 show "stats_of ?r ''EU'' = Some (2 + 1)" by blast
  from c show "stats_of ?r ''EU'' = map_of (row_counts (fst (run demo_env (init ''in.xlsx'' demo_headers)))) ''EU''"
    by blast
qed

subsection \<open>A workbook that does not close\<close>

lemma close_failure_parts:
  assumes "ensure_initialized E = None"
    and "load_workbook E p = Inr sheet"
    and "iter_rows E (init p hs) 0 (drop 1 sheet) = ((s1, n), None)"
    and "close_input E = None"
    and "map_of (writers s1) g = Some wb"
    and "wb_close E g = Some e"
    and "run E (init p hs) = (s', Some r)"
  shows "map_of r ''success'' = Some (VBool True)"
    and "map_of r ''error'' = None"
    and "map_of (output_files_of r) g = None"
    and "stats_of r g = Some (cursor s1 g)"
    and "map_of (writers s') g = Some wb"
    and "\<forall>h wh. map_of (writers s1) h = Some wh \<and> wb_close E h = None \<longrightarrow>
           map_of (writers s') h = Some (wh\<lparr>fileclosed := True\<rparr>) \<and>
           map_of (output_files_of r) h = Some (descriptor E wh (cursor s1 h))"
proof -
  have ip: "input_path (init p hs) = p" by (simp add: init_def)
  from assms(1,2,3,4,7) ip have f: "finalize E s1 n = (s', r)"
    by (auto simp: run_def split: prod.splits)
  from iter_rows_ok[OF assms(3) pool_ok_init, of undefined] have ok: "pool_ok s1" by simp
  show "map_of r ''success'' = Some (VBool True)" by (rule finalize_success[OF f])
  show "map_of r ''error'' = None" unfolding finalize_eq(2)[OF f] by simp
  show "map_of (output_files_of r) g = None"
    unfolding finalize_output_files[OF f ok] using assms(5,6) by simp
  from assms(5) pool_ok_lookups(2)[OF ok, of g] obtain c where c: "map_of (row_counts s1) g = Some c"
    by auto
  then have "cursor s1 g = c" by (simp add: cursor_def)
  with c show "stats_of r g = Some (cursor s1 g)" unfolding finalize_stats[OF f] by simp
  show "map_of (writers s') g = Some wb"
    unfolding finalize_closed[OF f ok] using assms(5,6) by simp
  show "\<forall>h wh. map_of (writers s1) h = Some wh \<and> wb_close E h = None \<longrightarrow>
           map_of (writers s') h = Some (wh\<lparr>fileclosed := True\<rparr>) \<and>
           map_of (output_files_of r) h = Some (descriptor E wh (cursor s1 h))"
    unfolding finalize_closed[OF f ok] finalize_output_files[OF f ok] by simp
qed

lemmas env_simps = close_fails_env_def create_fails_env_def no_key_env_def no_key_raise_env_def

text \<open>
  Claim C10. When \<open>_finalize\<close> is reached (no exception before it) and closing the
  workbook of a group \<open>g\<close> raises, the dictionary still has \<open>success = True\<close> and
  no \<open>error\<close> field, \<open>g\<close> has no entry in \<open>output_files\<close> but has its entry in
  \<open>stats\<close>, the workbook of \<open>g\<close> is left as it was, and every other workbook whose
  close does not raise is closed and listed in \<open>output_files\<close>.
\<close>

theorem close_failure_skips_group:
  assumes "ensure_initialized E = None"
    and "load_workbook E p = Inr sheet"
    and "iter_rows E (init p hs) 0 (drop 1 sheet) = ((s1, n), None)"
    and "close_input E = None"
    and "map_of (writers s1) g = Some wb"
    and "wb_close E g = Some e"
    and "run E (init p hs) = (s', Some r)"
  shows "map_of r ''success'' = Some (VBool True) \<and>
         map_of r ''error'' = None \<and>
         map_of (output_files_of r) g = None \<and>
         stats_of r g = Some (cursor s1 g) \<and>
         map_of (writers s') g = Some wb \<and>
         (\<forall>h wh. map_of (writers s1) h = Some wh \<and> wb_close E h = None \<longrightarrow>
            map_of (writers s') h = Some (wh\<lparr>fileclosed := True\<rparr>) \<and>
            map_of (output_files_of r) h = Some (descriptor E wh (cursor s1 h)))"
  using close_failure_parts[OF assms] by blast

text \<open>
  Claim C10 on the concrete run: closing \<open>EU\<close> raises; \<open>VIP\<close> is still closed and
  listed, \<open>EU\<close> is not listed, and the run succeeds.
\<close>

theorem close_failure_skips_group_witness:
  "ensure_initialized close_fails_env = None \<and>
   load_workbook close_fails_env ''in.xlsx'' = Inr demo_sheet \<and>
   snd (iter_rows close_fails_env (init ''in.xlsx'' demo_headers) 0 (drop 1 demo_sheet)) = None \<and>
   close_input close_fails_env = None \<and>
   map_of (writers (fst (fst (iter_rows close_fails_env (init ''in.xlsx'' demo_headers) 0
       (drop 1 demo_sheet))))) ''EU'' = Some \<lparr>filename = ''out/EU.xlsx'', fileclosed = False\<rparr> \<and>
   map_of (writers (fst (fst (iter_rows close_fails_env (init ''in.xlsx'' demo_headers) 0
       (drop 1 demo_sheet))))) ''VIP'' = Some \<lparr>filename = ''out/VIP.xlsx'', fileclosed = False\<rparr> \<and>
   wb_close close_fails_env ''EU'' = Some (Raised ''disk full'') \<and>
   wb_close close_fails_env ''VIP'' = None \<and>
   map_of (returned (snd (run close_fails_env (init ''in.xlsx'' demo_headers)))) ''success'' = Some (VBool True) \<and>
   map_of (returned (snd (run close_fails_env (init ''in.xlsx'' demo_headers)))) ''error'' = None \<and>
   map_of (output_files_of (returned (snd (run close_fails_env (init ''in.xlsx'' demo_headers))))) ''EU'' = None \<and>
   map_of (writers (fst (run close_fails_env (init ''in.xlsx'' demo_headers)))) ''EU''
     = Some \<lparr>filename = ''out/EU.xlsx'', fileclosed = False\<rparr> \<and>
   map_of (writers (fst (run close_fails_env (init ''in.xlsx'' demo_headers)))) ''VIP''
     = Some \<lparr>filename = ''out/VIP.xlsx'', fileclosed = True\<rparr>"
proof -
  let ?E = close_fails_env
  let ?s0 = "init ''in.xlsx'' demo_headers"
  let ?it = "iter_rows ?E ?s0 0 (drop 1 demo_sheet)"
  have h1: "ensure_initialized ?E = None" by (simp add: env_simps demo_env_def)
  have h2: "load_workbook ?E ''in.xlsx'' = Inr demo_sheet" by (simp add: env_simps demo_env_def)
  have h3': "snd ?it = None" by (simp add: env_simps run_simps)
  then have h3: "?it = ((fst (fst ?it), snd (fst ?it)), None)"
    by (metis prod.collapse)
  have h4: "map_of (writers (fst (fst ?it))) ''EU'' = Some \<lparr>filename = ''out/EU.xlsx'', fileclosed = False\<rparr>"
    by (simp add: env_simps run_simps)
  have h4': "map_of (writers (fst (fst ?it))) ''VIP'' = Some \<lparr>filename = ''out/VIP.xlsx'', fileclosed = False\<rparr>"
    by (simp add: env_simps run_simps)
  have hc: "close_input ?E = None" by (simp add: env_simps demo_env_def)
  have h5: "wb_close ?E ''EU'' = Some (Raised ''disk full'')" by (simp add: env_simps demo_env_def)
  have h5': "wb_close ?E ''VIP'' = None" by (simp add: env_simps demo_env_def)
  have hs: "map_of (returned (snd (run ?E ?s0))) ''success'' = Some (VBool True)"
    by (simp add: env_simps run_simps)
  note c = close_failure_skips_group[OF h1 h2 h3 hc h4 h5 run_collapse[OF hs]]
  from c h4' h5' have v: "map_of (writers (fst (run ?E ?s0))) ''VIP''
     = Some (\<lparr>filename = ''out/VIP.xlsx'', fileclosed = False\<rparr>\<lparr>fileclosed := True\<rparr>)" by blast
  from h1 h2 h3' hc h4 h4' h5 h5' c v show ?thesis by simp
qed

subsection \<open>Row counts\<close>

lemma count_list_distinct:
  "distinct gs \<Longrightarrow> count_list gs g = (if g \<in> set gs then 1 else 0)"
  by (induction gs) auto

lemma sum_count_distinct:
  assumes "\<forall>gs\<in>set L. distinct gs"
  shows "(\<Sum>gs\<leftarrow>L. int (count_list gs g)) = int (length (filter (\<lambda>gs. g \<in> set gs) L))"
  using assms by (induction L) (auto simp: count_list_distinct)

lemma filter_pos_iff:
  "0 < length (filter (\<lambda>gs. g \<in> set gs) L) \<longleftrightarrow> g \<in> \<Union> (set ` set L)"
  by (induction L) auto

lemma row_count_parts:
  assumes "load_workbook E p = Inr sheet"
    and "run E (init p hs) = (s', Some r)"
    and "map_of r ''success'' = Some (VBool True)"
    and "\<forall>gs\<in>set (resolved E 0 (drop 1 sheet)). distinct gs"
  shows "cursor s' g = int (length (filter (\<lambda>gs. g \<in> set gs) (resolved E 0 (drop 1 sheet)))) + 1"
    and "(\<exists>gs\<in>set (resolved E 0 (drop 1 sheet)). g \<in> set gs) \<and> wb_close E g = None \<longrightarrow>
           row_count_of r g =
             Some (int (length (filter (\<lambda>gs. g \<in> set gs) (resolved E 0 (drop 1 sheet)))))"
    and "\<forall>k. row_count_of r g = Some k \<longrightarrow>
           k = int (length (filter (\<lambda>gs. g \<in> set gs) (resolved E 0 (drop 1 sheet)))) \<and>
           k = cursor s' g - 1"
    and "\<forall>ws. map_of (sheets s') g = Some ws \<longrightarrow>
           hd ws = (0, map CStr hs) \<and> map fst ws = map int [0..<length ws] \<and>
           int (length ws) = cursor s' g"
proof -
  let ?L = "resolved E 0 (drop 1 sheet)"
  let ?N = "int (length (filter (\<lambda>gs. g \<in> set gs) ?L))"
  from run_success_state[OF assms(2,3)] obtain sheet' s1 n where
    l: "load_workbook E p = Inr sheet'"
    and i: "iter_rows E (init p hs) 0 (drop 1 sheet') = ((s1, n), None)"
    and f: "finalize E s1 n = (s', r)" and ok: "pool_ok s1" and sh: "sheets_ok s1" by blast
  from l assms(1) have [simp]: "sheet' = sheet" by simp
  note it = iter_rows_ok[OF i pool_ok_init, of g]
  note st = finalize_state[OF f]
  have c0: "cursor (init p hs) g = 1" by (simp add: cursor_def init_def)
  have cs: "cursor s' g = cursor s1 g" using st(1) by (simp add: cursor_def)
  from it c0 sum_count_distinct[OF assms(4), of g]
  have c1: "cursor s1 g = ?N + 1" by simp
  with cs show c: "cursor s' g = ?N + 1" by simp
  have w: "map_of (writers s1) g \<noteq> None \<longleftrightarrow> (\<exists>gs\<in>set ?L. g \<in> set gs)"
  proof -
    have "map_of (writers s1) g \<noteq> None \<longleftrightarrow> g \<in> fst ` set (writers s1)"
      by (simp add: map_of_eq_None_iff)
    also have "\<dots> \<longleftrightarrow> g \<in> \<Union> (set ` set ?L)"
      using it by (simp add: init_def)
    finally show ?thesis by auto
  qed
  note rc = finalize_row_count[OF f ok, of g]
  from rc w c1 show "(\<exists>gs\<in>set ?L. g \<in> set gs) \<and> wb_close E g = None \<longrightarrow>
           row_count_of r g = Some ?N" by simp
  from rc c1 cs show "\<forall>k. row_count_of r g = Some k \<longrightarrow> k = ?N \<and> k = cursor s' g - 1"
    by (auto split: if_splits)
  have hd: "headers s1 = hs" using it by (simp add: init_def)
  show "\<forall>ws. map_of (sheets s') g = Some ws \<longrightarrow>
           hd ws = (0, map CStr hs) \<and> map fst ws = map int [0..<length ws] \<and>
           int (length ws) = cursor s' g"
  proof (intro allI impI)
    fix ws assume "map_of (sheets s') g = Some ws"
    with st(4) have "map_of (sheets s1) g = Some ws" by simp
    with sh have "sheet_ok (headers s1) ws (cursor s1 g)" by (simp add: sheets_ok_def)
    with hd cs show "hd ws = (0, map CStr hs) \<and> map fst ws = map int [0..<length ws] \<and>
           int (length ws) = cursor s' g"
      by (simp add: sheet_ok_def)
  qed
qed

text \<open>
  Claim C4, as the code has it. Let the answers of the group manager be sets (no group
  twice in one answer) and let the run succeed. Then the final cursor of a group \<open>g\<close>
  is one more than the number of input rows whose resolved groups contain \<open>g\<close>; its
  sheet holds the header at row 0 and one row at each index from 1 to the cursor minus
  one; whenever \<open>output_files\<close> has an entry for \<open>g\<close>, its \<open>row_count\<close> is that
  number of rows, which is the cursor minus 1; and \<open>output_files\<close> has the entry for
  every group that received a row and whose workbook closed without raising.
\<close>

theorem row_count_counts_resolved_rows:
  assumes "load_workbook E p = Inr sheet"
    and "run E (init p hs) = (s', Some r)"
    and "map_of r ''success'' = Some (VBool True)"
    and "\<forall>gs\<in>set (resolved E 0 (drop 1 sheet)). distinct gs"
  shows "cursor s' g = int (length (filter (\<lambda>gs. g \<in> set gs) (resolved E 0 (drop 1 sheet)))) + 1 \<and>
         ((\<exists>gs\<in>set (resolved E 0 (drop 1 sheet)). g \<in> set gs) \<and> wb_close E g = None \<longrightarrow>
           row_count_of r g =
             Some (int (length (filter (\<lambda>gs. g \<in> set gs) (resolved E 0 (drop 1 sheet)))))) \<and>
         (\<forall>k. row_count_of r g = Some k \<longrightarrow>
           k = int (length (filter (\<lambda>gs. g \<in> set gs) (resolved E 0 (drop 1 sheet)))) \<and>
           k = cursor s' g - 1) \<and>
         (\<forall>ws. map_of (sheets s') g = Some ws \<longrightarrow>
           hd ws = (0, map CStr hs) \<and> map fst ws = map int [0..<length ws] \<and>
           int (length ws) = cursor s' g)"
  using row_count_parts[OF assms] by blast

text \<open>
  Claim C4 on the concrete run: \<open>EU\<close> is among the resolved groups of two rows and its
  \<open>row_count\<close> is 2.
\<close>

theorem row_count_counts_resolved_rows_witness:
  "load_workbook demo_env ''in.xlsx'' = Inr demo_sheet \<and>
   map_of (returned (snd (run demo_env (init ''in.xlsx'' demo_headers)))) ''success'' = Some (VBool True) \<and>
   resolved demo_env 0 (drop 1 demo_sheet) = [[''EU''], [], [''EU'', ''VIP'']] \<and>
   wb_close demo_env ''EU'' = None \<and>
   row_count_of (returned (snd (run demo_env (init ''in.xlsx'' demo_headers)))) ''EU''
     = Some (int (length (filter (\<lambda>gs. ''EU'' \<in> set gs) (resolved demo_env 0 (drop 1 demo_sheet))))) \<and>
   length (filter (\<lambda>gs. ''EU'' \<in> set gs) (resolved demo_env 0 (drop 1 demo_sheet))) = 2 \<and>
   cursor (fst (run demo_env (init ''in.xlsx'' demo_headers))) ''EU'' = 3"
proof -
  let ?r = "returned (snd (run demo_env (init ''in.xlsx'' demo_headers)))"
  let ?L = "resolved demo_env 0 (drop 1 demo_sheet)"
  have h1: "load_workbook demo_env ''in.xlsx'' = Inr demo_sheet" by (simp add: demo_env_def)
  have h3: "map_of ?r ''success'' = Some (VBool True)" by (simp add: run_simps)
  have L: "?L = [[''EU''], [], [''EU'', ''VIP'']]"
    by (simp add: demo_env_def demo_sheet_def city_of_def)
  have h4: "\<forall>gs\<in>set ?L. distinct gs" unfolding L by simp
  have h5: "wb_close demo_env ''EU'' = None" by (simp add: demo_env_def)
  have h6: "\<exists>gs\<in>set ?L. ''EU'' \<in> set gs" unfolding L by simp
  have n: "length (filter (\<lambda>gs. ''EU'' \<in> set gs) ?L) = 2" unfolding L by simp
  note c = row_count_counts_resolved_rows[OF h1 run_collapse[OF h3] h3 h4, of "''EU''"]
  from c h5 h6 have rc: "row_count_of ?r ''EU'' = Some (int (length (filter (\<lambda>gs. ''EU'' \<in> set gs) ?L)))"
    by blast
  from c n have cu: "cursor (fst (run demo_env (init ''in.xlsx'' demo_headers))) ''EU'' = 3" by simp
  from h1 h3 L h5 rc n cu show ?thesis by blast
qed

text \<open>
  Claim C4 as stated fails: when closing the workbook of \<open>EU\<close> raises, the run
  succeeds, \<open>EU\<close> received two rows, and \<open>output_files\<close> has no entry for \<open>EU\<close>.
\<close>

theorem row_count_missing_counterexample:
  "map_of (returned (split_excel_by_groups close_fails_env ''in.xlsx'' demo_headers))
     ''success'' = Some (VBool True) \<and>
   length (filter (\<lambda>gs. ''EU'' \<in> set gs) (resolved close_fails_env 0 (drop 1 demo_sheet))) = 2 \<and>
   map_of (output_files_of (returned (split_excel_by_groups close_fails_env ''in.xlsx'' demo_headers))) ''EU''
     = None \<and>
   row_count_of (returned (split_excel_by_groups close_fails_env ''in.xlsx'' demo_headers)) ''EU'' = None"
  by (simp add: env_simps run_simps output_files_of_def row_count_of_def)

subsection \<open>A failing writer\<close>

lemma write_group_fails:
  assumes "pool_ok s"
    and "ensure_group_writer E s g = (s3, Some x) \<or>
         ensure_group_writer E s g = (s3, None) \<and>
           write_row E g (cursor s3 g) row = Some e \<and> x = Exc e"
  shows "write_group E row s g = (s3, Some x)"
  using assms(2)
proof (elim disjE conjE)
  assume "ensure_group_writer E s g = (s3, Some x)"
  then show ?thesis by (simp add: write_group_def)
next
  assume e1: "ensure_group_writer E s g = (s3, None)"
    and w: "write_row E g (cursor s3 g) row = Some e" and x: "x = Exc e"
  have ok: "pool_ok s3" using ensure_pool_ok[OF e1 assms(1)] .
  have reg: "map_of (writers s3) g \<noteq> None" using ensure_ok_registered[OF e1] .
  with pool_ok_lookups[OF ok, of g] obtain ws c where
    ws: "map_of (sheets s3) g = Some ws" and c: "map_of (row_counts s3) g = Some c" by auto
  from c have "cursor s3 g = c" by (simp add: cursor_def)
  with e1 ws c w x show ?thesis by (simp add: write_group_def)
qed

text \<open>
  Claim C1, as the code has it. Let the rows before \<open>row\<close> be processed without a
  raise, let \<open>row\<close> resolve to the groups \<open>gs1 @ g # gs2\<close>, let the row be written to
  the groups \<open>gs1\<close>, and let then the creation of the writer of \<open>g\<close>, or the writing
  of the row to it, raise \<open>x\<close>. Then nothing isolates the raise: the run stops in the
  state of the raise (the groups \<open>gs2\<close> and the rows \<open>post\<close> are not processed). When
  \<open>x\<close> is an instance \<open>e\<close> of \<open>Exception\<close>, \<open>run\<close> returns the failure dictionary
  with the text of \<open>e\<close>; when \<open>x\<close> is \<open>CancelledError\<close> (raised while the group's
  information or file name is awaited), the handler does not catch it and \<open>run\<close>
  returns nothing.
\<close>

theorem writer_error_aborts_run:
  assumes "ensure_initialized E = None"
    and "load_workbook E p = Inr sheet"
    and "drop 1 sheet = pre @ row # post"
    and "iter_rows E (init p hs) 0 pre = ((s1, n), None)"
    and "get_groups_for_city E n (city_of row) = Inr (gs1 @ g # gs2)"
    and "write_groups E row s1 gs1 = (s2, None)"
    and "ensure_group_writer E s2 g = (s3, Some x) \<or>
         ensure_group_writer E s2 g = (s3, None) \<and>
           write_row E g (cursor s3 g) row = Some e \<and> x = Exc e"
  shows "(x = Exc e \<longrightarrow>
            run E (init p hs) =
              (s3, Some [(''success'', VBool False), (''error'', VStr (str e)),
                         (''total_rows'', VInt 0), (''output_files'', VDict [])])) \<and>
         (x = CancelledError \<longrightarrow> run E (init p hs) = (s3, None))"
proof -
  have ip: "input_path (init p hs) = p" by (simp add: init_def)
  from iter_rows_ok[OF assms(4) pool_ok_init, of undefined] have ok1: "pool_ok s1" by simp
  from write_groups_ok[OF assms(6) ok1, of undefined] have ok2: "pool_ok s2" by simp
  have wg: "write_group E row s2 g = (s3, Some x)"
    using write_group_fails[OF ok2 assms(7)] .
  have "write_groups E row s1 (gs1 @ g # gs2) = (s3, Some x)"
    unfolding write_groups_append using assms(6) wg by simp
  then have "process_row E (get_groups_for_city E n) s1 row = (s3, Some x)"
    using assms(5) by (simp add: process_row_def Let_def)
  then have "iter_rows E s1 n (row # post) = ((s3, n), Some x)" by simp
  then have "iter_rows E (init p hs) 0 (drop 1 sheet) = ((s3, n), Some x)"
    unfolding assms(3) iter_rows_append using assms(4) by simp
  with assms(1,2) ip have "run E (init p hs) = (s3, except_Exception x)"
    by (simp add: run_def)
  then show ?thesis by (auto simp: failure_def)
qed

text \<open>
  Claim C1 on the concrete run where creating the workbook of \<open>EU\<close> raises: the first
  row fails, and the run returns the failure dictionary with the object untouched. And
  on the run cancelled while the information of \<open>EU\<close> is awaited: nothing is returned.
\<close>

theorem writer_error_aborts_run_witness:
  "ensure_initialized create_fails_env = None \<and>
   load_workbook create_fails_env ''in.xlsx'' = Inr demo_sheet \<and>
   drop 1 demo_sheet = [] @ [CInt 1, CStr ''Paris'', CInt 10] #
      [[CInt 2, CStr ''Lagos'', CInt 5], [CInt 3, CStr ''Paris'', CInt 7]] \<and>
   get_groups_for_city create_fails_env 0 (city_of [CInt 1, CStr ''Paris'', CInt 10])
      = Inr ([] @ ''EU'' # []) \<and>
   ensure_group_writer create_fails_env (init ''in.xlsx'' demo_headers) ''EU''
      = (init ''in.xlsx'' demo_headers, Some (Exc (Raised ''disk full''))) \<and>
   run create_fails_env (init ''in.xlsx'' demo_headers) =
     (init ''in.xlsx'' demo_headers,
      Some [(''success'', VBool False), (''error'', VStr (str (Raised ''disk full''))),
            (''total_rows'', VInt 0), (''output_files'', VDict [])]) \<and>
   ensure_group_writer cancelled_env (init ''in.xlsx'' demo_headers) ''EU''
      = (init ''in.xlsx'' demo_headers, Some CancelledError) \<and>
   run cancelled_env (init ''in.xlsx'' demo_headers) = (init ''in.xlsx'' demo_headers, None)"
proof -
  let ?E = create_fails_env
  let ?C = cancelled_env
  let ?s = "init ''in.xlsx'' demo_headers"
  let ?row = "[CInt 1, CStr ''Paris'', CInt 10]"
  have h1: "ensure_initialized ?E = None" by (simp add: env_simps demo_env_def)
  have h2: "load_workbook ?E ''in.xlsx'' = Inr demo_sheet" by (simp add: env_simps demo_env_def)
  have h3: "drop 1 demo_sheet = [] @ ?row #
      [[CInt 2, CStr ''Lagos'', CInt 5], [CInt 3, CStr ''Paris'', CInt 7]]"
    by (simp add: demo_sheet_def)
  have h4: "iter_rows ?E ?s 0 [] = ((?s, 0), None)" by simp
  have h5: "get_groups_for_city ?E 0 (city_of ?row) = Inr ([] @ ''EU'' # [])"
    by (simp add: env_simps demo_env_def city_of_def)
  have h6: "write_groups ?E ?row ?s [] = (?s, None)" by simp
  have h7: "ensure_group_writer ?E ?s ''EU'' = (?s, Some (Exc (Raised ''disk full'')))"
    by (simp add: env_simps demo_env_def ensure_group_writer_def init_def)
  from h7 have h7': "ensure_group_writer ?E ?s ''EU'' = (?s, Some (Exc (Raised ''disk full''))) \<or>
         ensure_group_writer ?E ?s ''EU'' = (?s, None) \<and>
         write_row ?E ''EU'' (cursor ?s ''EU'') ?row = Some (Raised ''disk full'') \<and>
         Exc (Raised ''disk full'') = Exc (Raised ''disk full'')" by (rule disjI1)
  note c = writer_error_aborts_run[OF h1 h2 h3 h4 h5 h6 h7']
  have k1: "ensure_initialized ?C = None" by (simp add: cancelled_env_def demo_env_def)
  have k2: "load_workbook ?C ''in.xlsx'' = Inr demo_sheet"
    by (simp add: cancelled_env_def demo_env_def)
  have k4: "iter_rows ?C ?s 0 [] = ((?s, 0), None)" by simp
  have k5: "get_groups_for_city ?C 0 (city_of ?row) = Inr ([] @ ''EU'' # [])"
    by (simp add: cancelled_env_def demo_env_def city_of_def)
  have k6: "write_groups ?C ?row ?s [] = (?s, None)" by simp
  have k7: "ensure_group_writer ?C ?s ''EU'' = (?s, Some CancelledError)"
    by (simp add: cancelled_env_def demo_env_def ensure_group_writer_def init_def)
  from k7 have k7': "ensure_group_writer ?C ?s ''EU'' = (?s, Some CancelledError) \<or>
         ensure_group_writer ?C ?s ''EU'' = (?s, None) \<and>
         write_row ?C ''EU'' (cursor ?s ''EU'') ?row = Some (Raised []) \<and>
         CancelledError = Exc (Raised [])" by (rule disjI1)
  note d = writer_error_aborts_run[OF k1 k2 h3 k4 k5 k6 k7']
  from h1 h2 h3 h5 h7 c k7 d show ?thesis by blast
qed

text \<open>
  Claim C1 as stated fails: creating the workbook of \<open>EU\<close> raises for the first row;
  the run returns a failure dictionary, not a success one, and the rows after it are
  never processed (\<open>Lagos\<close> is not recorded, \<open>VIP\<close> gets no writer).
\<close>

theorem writer_error_counterexample:
  "Workbook create_fails_env ''out/EU.xlsx'' = Some (Raised ''disk full'') \<and>
   run create_fails_env (init ''in.xlsx'' demo_headers) =
     (\<lparr>input_path = ''in.xlsx'', headers = demo_headers, writers = [], sheets = [],
       row_counts = [], matched_rows = 0, unmatched_cities = []\<rparr>,
      Some [(''success'', VBool False), (''error'', VStr ''disk full''),
            (''total_rows'', VInt 0), (''output_files'', VDict [])])"
  by (simp add: env_simps run_simps)

subsection \<open>Rows without a key\<close>












subsection \<open>The three-row scenario\<close>

text \<open>
  Claim C6. The input has a header line and the rows \<open>(1, Paris, 10)\<close>,
  \<open>(2, Lagos, 5)\<close>, \<open>(3, Paris, 7)\<close>; the lookups answer \<open>EU\<close>, nothing, and
  \<open>EU\<close> and \<open>VIP\<close> (in either order); no collaborator raises. Then the run succeeds
  with \<open>total_rows = 3\<close>, \<open>row_count\<close> 2 for \<open>EU\<close> and 1 for \<open>VIP\<close>, the
  unmatched keys \<open>Lagos\<close> only, and \<open>matched_rows = 3\<close>, one for each write.
\<close>

theorem scenario_three_rows:
  assumes "ensure_initialized E = None"
    and "load_workbook E p =
           Inr [hdr, [CInt 1, CStr ''Paris'', CInt 10], [CInt 2, CStr ''Lagos'', CInt 5],
                [CInt 3, CStr ''Paris'', CInt 7]]"
    and "close_input E = None"
    and "get_groups_for_city E 0 (CStr ''Paris'') = Inr [''EU'']"
    and "get_groups_for_city E 1 (CStr ''Lagos'') = Inr []"
    and "get_groups_for_city E 2 (CStr ''Paris'') = Inr gs"
    and "gs = [''EU'', ''VIP''] \<or> gs = [''VIP'', ''EU'']"
    and "\<And>g. get_group_info E g = Inr (info g)"
    and "\<And>i. generate_output_filename E i = Inr (name i)"
    and "\<And>d. mkdir E d = None"
    and "\<And>q. Workbook E q = None"
    and "\<And>g k d. write_row E g k d = None"
    and "\<And>g. wb_close E g = None"
  shows "\<exists>r. split_excel_by_groups E p [''Id'', ''City'', ''Value''] = Some r \<and>
         map_of r ''success'' = Some (VBool True) \<and>
         map_of r ''total_rows'' = Some (VInt 3) \<and>
         row_count_of r ''EU'' = Some 2 \<and>
         row_count_of r ''VIP'' = Some 1 \<and>
         map_of r ''unmatched_cities'' = Some (VCells [CStr ''Lagos'']) \<and>
         map_of r ''matched_rows'' = Some (VInt 3)"
  using assms(7)
proof
  assume g: "gs = [''EU'', ''VIP'']"
  show ?thesis
    using assms(1-6,8-13) unfolding g
    by (simp add: split_excel_by_groups_def run_def init_def process_row_def city_of_def
        write_group_def ensure_group_writer_def finalize_def Let_def
        row_count_of_def output_files_of_def)
next
  assume g: "gs = [''VIP'', ''EU'']"
  show ?thesis
    using assms(1-6,8-13) unfolding g
    by (simp add: split_excel_by_groups_def run_def init_def process_row_def city_of_def
        write_group_def ensure_group_writer_def finalize_def Let_def
        row_count_of_def output_files_of_def)
qed

text \<open>Claim C6 on the concrete run, whose collaborators are those of the scenario.\<close>

theorem scenario_three_rows_witness:
  "ensure_initialized demo_env = None \<and>
   load_workbook demo_env ''in.xlsx'' =
     Inr [[CStr ''Id'', CStr ''City'', CStr ''Value''],
          [CInt 1, CStr ''Paris'', CInt 10], [CInt 2, CStr ''Lagos'', CInt 5],
          [CInt 3, CStr ''Paris'', CInt 7]] \<and>
   get_groups_for_city demo_env 0 (CStr ''Paris'') = Inr [''EU''] \<and>
   get_groups_for_city demo_env 1 (CStr ''Lagos'') = Inr [] \<and>
   get_groups_for_city demo_env 2 (CStr ''Paris'') = Inr [''EU'', ''VIP''] \<and>
   map_of (returned (split_excel_by_groups demo_env ''in.xlsx'' [''Id'', ''City'', ''Value'']))
      ''success'' = Some (VBool True) \<and>
   map_of (returned (split_excel_by_groups demo_env ''in.xlsx'' [''Id'', ''City'', ''Value'']))
      ''total_rows'' = Some (VInt 3) \<and>
   row_count_of (returned (split_excel_by_groups demo_env ''in.xlsx'' [''Id'', ''City'', ''Value'']))
      ''EU'' = Some 2 \<and>
   row_count_of (returned (split_excel_by_groups demo_env ''in.xlsx'' [''Id'', ''City'', ''Value'']))
      ''VIP'' = Some 1 \<and>
   map_of (returned (split_excel_by_groups demo_env ''in.xlsx'' [''Id'', ''City'', ''Value'']))
      ''unmatched_cities'' = Some (VCells [CStr ''Lagos'']) \<and>
   map_of (returned (split_excel_by_groups demo_env ''in.xlsx'' [''Id'', ''City'', ''Value'']))
      ''matched_rows'' = Some (VInt 3)"
proof -
  have h1: "ensure_initialized demo_env = None" by (simp add: demo_env_def)
  have h2: "load_workbook demo_env ''in.xlsx'' =
     Inr [[CStr ''Id'', CStr ''City'', CStr ''Value''],
          [CInt 1, CStr ''Paris'', CInt 10], [CInt 2, CStr ''Lagos'', CInt 5],
          [CInt 3, CStr ''Paris'', CInt 7]]"
    by (simp add: demo_env_def demo_sheet_def)
  have hc: "close_input demo_env = None" by (simp add: demo_env_def)
  have h3: "get_groups_for_city demo_env 0 (CStr ''Paris'') = Inr [''EU'']"
    by (simp add: demo_env_def)
  have h4: "get_groups_for_city demo_env 1 (CStr ''Lagos'') = Inr []"
    by (simp add: demo_env_def)
  have h5: "get_groups_for_city demo_env 2 (CStr ''Paris'') = Inr [''EU'', ''VIP'']"
    by (simp add: demo_env_def)
  have h6: "[''EU'', ''VIP''] = [''EU'', ''VIP''] \<or> [''EU'', ''VIP''] = [''VIP'', ''EU'']"
    by simp
  have h7: "\<And>g. get_group_info demo_env g = Inr ((\<lambda>g. g) g)" by (simp add: demo_env_def)
  have h8: "\<And>i. generate_output_filename demo_env i = Inr ((\<lambda>i. i @ ''.xlsx'') i)"
    by (simp add: demo_env_def)
  have h9: "\<And>d. mkdir demo_env d = None" by (simp add: demo_env_def)
  have h10: "\<And>q. Workbook demo_env q = None" by (simp add: demo_env_def)
  have h11: "\<And>g k d. write_row demo_env g k d = None" by (simp add: demo_env_def)
  have h12: "\<And>g. wb_close demo_env g = None" by (simp add: demo_env_def)
  from scenario_three_rows[OF h1 h2 hc h3 h4 h5 h6 h7 h8 h9 h10 h11 h12]
  obtain r where r: "split_excel_by_groups demo_env ''in.xlsx'' [''Id'', ''City'', ''Value''] = Some r"
    and c: "map_of r ''success'' = Some (VBool True)"
      "map_of r ''total_rows'' = Some (VInt 3)"
      "row_count_of r ''EU'' = Some 2"
      "row_count_of r ''VIP'' = Some 1"
      "map_of r ''unmatched_cities'' = Some (VCells [CStr ''Lagos''])"
      "map_of r ''matched_rows'' = Some (VInt 3)" by blast
  from r have "returned (split_excel_by_groups demo_env ''in.xlsx'' [''Id'', ''City'', ''Value'']) = r"
    by (simp add: returned_def)
  with h1 h2 h3 h4 h5 c show ?thesis by simp
qed

end
